theory Spec2Isabelle
  imports Complex_Main "HOL-Library.Sublist" "HOL-Library.Log_Nat"
begin

section \<open>JavaScript strings and the regular expressions of the source\<close>

text \<open>
  Host names and path names of a parsed URL are ASCII (the platform serialises hosts in
  Punycode and percent-encodes paths), so a \<open>string\<close> of 8-bit characters holds them and
  \<open>length\<close> is the JavaScript \<open>length\<close>.
\<close>

definition is_alnum :: "char \<Rightarrow> bool" where
  \<comment> \<open>the character class \<open>[a-zA-Z0-9]\<close>\<close>
  "is_alnum c = (let n = (of_char c :: nat) in
     (97 \<le> n \<and> n \<le> 122) \<or> (65 \<le> n \<and> n \<le> 90) \<or> (48 \<le> n \<and> n \<le> 57))"

definition is_alnum_dot_dash :: "char \<Rightarrow> bool" where
  \<comment> \<open>the character class \<open>[a-zA-Z0-9.-]\<close>\<close>
  "is_alnum_dot_dash c = (is_alnum c \<or> c = CHR ''.'' \<or> c = CHR ''-'')"

definition replace_outside :: "(char \<Rightarrow> bool) \<Rightarrow> string \<Rightarrow> string" where
  \<comment> \<open>\<open>s.replace(/[^K]/g, '_')\<close> for a character class \<open>K\<close>\<close>
  "replace_outside keep s = map (\<lambda>c. if keep c then c else CHR ''_'') s"

fun collapse_underscores :: "string \<Rightarrow> string" where
  \<comment> \<open>\<open>s.replace(/_+/g, '_')\<close>: every maximal run of underscores becomes one\<close>
  "collapse_underscores (a # b # s) =
     (if a = CHR ''_'' \<and> b = CHR ''_'' then collapse_underscores (b # s)
      else a # collapse_underscores (b # s))"
| "collapse_underscores s = s"

definition strip_leading :: "string \<Rightarrow> string" where
  \<comment> \<open>the alternative \<open>^_\<close>: one underscore at index 0\<close>
  "strip_leading s = (case s of [] \<Rightarrow> [] | c # r \<Rightarrow> if c = CHR ''_'' then r else s)"

definition strip_trailing :: "string \<Rightarrow> string" where
  \<comment> \<open>the alternative \<open>_$\<close>: one underscore at the last index\<close>
  "strip_trailing s = (if s \<noteq> [] \<and> last s = CHR ''_'' then butlast s else s)"

definition trim_underscore :: "string \<Rightarrow> string" where
  \<comment> \<open>\<open>s.replace(/^_|_$/g, '')\<close>: the global scan removes the match at index 0, then
      the match at the end of what is left\<close>
  "trim_underscore s = strip_trailing (strip_leading s)"

definition or_else :: "string \<Rightarrow> string \<Rightarrow> string" where
  \<comment> \<open>\<open>s || d\<close> on strings: the empty string is falsy\<close>
  "or_else s d = (if s = [] then d else s)"

fun splitOn :: "char \<Rightarrow> string \<Rightarrow> string list" where
  \<comment> \<open>\<open>s.split(c)\<close>\<close>
  "splitOn c [] = [[]]"
| "splitOn c (x # xs) =
     (if x = c then [] # splitOn c xs
      else (case splitOn c xs of [] \<Rightarrow> [[x]] | p # ps \<Rightarrow> (x # p) # ps))"

definition startsWith :: "string \<Rightarrow> string \<Rightarrow> bool" where
  "startsWith s p = prefix p s"

definition endsWith :: "string \<Rightarrow> string \<Rightarrow> bool" where
  "endsWith s p = suffix p s"


section \<open>The platform's URL class\<close>

text \<open>
  The source builds URL objects with \<open>new URL(input)\<close> and \<open>new URL(input, base)\<close> and
  reads \<open>protocol\<close>, \<open>host\<close>, \<open>hostname\<close>, \<open>pathname\<close> and \<open>href\<close>; \<open>normalizeUrl\<close>
  assigns \<open>hash = ''\<close>. A URL object is the record of the URL standard, its getters and
  its serialiser are the standard's; the path is kept in serialised form.
\<close>

record URL =
  url_scheme :: string
  url_username :: string
  url_password :: string
  url_host_name :: "string option"
  url_port :: "string option"
  url_path :: string
  url_query :: "string option"
  url_fragment :: "string option"

definition protocol :: "URL \<Rightarrow> string" where
  "protocol u = url_scheme u @ '':''"

definition hostname :: "URL \<Rightarrow> string" where
  "hostname u = (case url_host_name u of None \<Rightarrow> [] | Some h \<Rightarrow> h)"

definition host :: "URL \<Rightarrow> string" where
  "host u = (case url_host_name u of None \<Rightarrow> []
             | Some h \<Rightarrow> (case url_port u of None \<Rightarrow> h | Some p \<Rightarrow> h @ '':'' @ p))"

definition pathname :: "URL \<Rightarrow> string" where
  "pathname u = url_path u"

definition credentials :: "URL \<Rightarrow> string" where
  "credentials u =
     (if url_username u = [] \<and> url_password u = [] then []
      else url_username u @ (if url_password u = [] then [] else '':'' @ url_password u)
           @ ''@'')"

definition href :: "URL \<Rightarrow> string" where
  "href u =
     url_scheme u @ '':'' @
     (case url_host_name u of
        Some h \<Rightarrow> ''//'' @ credentials u @ host u
      | None \<Rightarrow> (if prefix ''//'' (url_path u) then ''/.'' else [])) @
     url_path u @
     (case url_query u of None \<Rightarrow> [] | Some q \<Rightarrow> ''?'' @ q) @
     (case url_fragment u of None \<Rightarrow> [] | Some f \<Rightarrow> ''#'' @ f)"

definition clear_hash :: "URL \<Rightarrow> URL" where
  \<comment> \<open>the assignment \<open>u.hash = ''\<close>: the fragment becomes null\<close>
  "clear_hash u = u\<lparr>url_fragment := None\<rparr>"

text \<open>
  The parser itself is the platform's: every function of the source that parses takes it
  as the parameter \<open>P\<close>, where \<open>P input None\<close> is \<open>new URL(input)\<close>,
  \<open>P input (Some base)\<close> is \<open>new URL(input, base)\<close>, and \<open>None\<close> is the \<open>TypeError\<close>
  the constructor throws.
\<close>

type_synonym url_parser = "string \<Rightarrow> string option \<Rightarrow> URL option"

text \<open>
  \<open>plain_URL\<close> is a reference parser for evaluating examples. It accepts the absolute URLs
  \<open>scheme://host/path?query#fragment\<close> with scheme http, https or ftp, a host of
  non-empty labels of lower-case letters separated by dots, a path of letters, digits,
  \<open>/\<close>, \<open>_\<close> and \<open>-\<close>, and a query and fragment of letters, digits, \<open>=\<close>, \<open>&\<close>,
  \<open>_\<close> and \<open>-\<close>. On these inputs parsing is plain splitting (no percent-encoding, no dot
  segments, no port, no numeric host, no case folding), an absolute input ignores the
  base, and an empty path is \<open>/\<close>. Every other input is outside the examples and
  \<open>plain_URL\<close> gives \<open>None\<close> for it, which says nothing about the platform there.
\<close>

definition is_lower :: "char \<Rightarrow> bool" where
  "is_lower c = (let n = (of_char c :: nat) in 97 \<le> n \<and> n \<le> 122)"

definition plain_host :: "string \<Rightarrow> bool" where
  "plain_host h = list_all (\<lambda>l. l \<noteq> [] \<and> list_all is_lower l) (splitOn CHR ''.'' h)"

definition path_char :: "char \<Rightarrow> bool" where
  "path_char c = (is_alnum c \<or> c = CHR ''/'' \<or> c = CHR ''_'' \<or> c = CHR ''-'')"

definition query_char :: "char \<Rightarrow> bool" where
  "query_char c = (is_alnum c \<or> c = CHR ''='' \<or> c = CHR ''&'' \<or> c = CHR ''_'' \<or> c = CHR ''-'')"

definition plain_tail :: "string \<Rightarrow> (string option \<times> string option) option" where
  \<comment> \<open>the part after the path: \<open>?query\<close> and \<open>#fragment\<close>, each optional\<close>
  "plain_tail r =
     (let (q, r') = (case r of
                       c # t \<Rightarrow> if c = CHR ''?''
                                then (Some (takeWhile (\<lambda>x. x \<noteq> CHR ''#'') t),
                                      dropWhile (\<lambda>x. x \<noteq> CHR ''#'') t)
                                else (None, r)
                     | [] \<Rightarrow> (None, r));
          f = (case r' of [] \<Rightarrow> None | c # t \<Rightarrow> Some t)
      in if (case q of None \<Rightarrow> True | Some s \<Rightarrow> list_all query_char s)
            \<and> (case f of None \<Rightarrow> True | Some s \<Rightarrow> list_all query_char s)
         then Some (q, f) else None)"

definition plain_URL :: url_parser where
  "plain_URL input base =
     (let sch = takeWhile (\<lambda>c. c \<noteq> CHR '':'') input;
          r0 = dropWhile (\<lambda>c. c \<noteq> CHR '':'') input;
          stop = (\<lambda>c. c = CHR ''/'' \<or> c = CHR ''?'' \<or> c = CHR ''#'');
          h = takeWhile (\<lambda>c. \<not> stop c) (drop 3 r0);
          r1 = dropWhile (\<lambda>c. \<not> stop c) (drop 3 r0);
          p = takeWhile (\<lambda>c. c \<noteq> CHR ''?'' \<and> c \<noteq> CHR ''#'') r1;
          r2 = dropWhile (\<lambda>c. c \<noteq> CHR ''?'' \<and> c \<noteq> CHR ''#'') r1
      in if sch \<in> {''http'', ''https'', ''ftp''} \<and> prefix ''://'' r0
            \<and> plain_host h \<and> list_all path_char p
         then (case plain_tail r2 of
                 None \<Rightarrow> None
               | Some (q, f) \<Rightarrow>
                   Some \<lparr>url_scheme = sch, url_username = [], url_password = [],
                         url_host_name = Some h, url_port = None,
                         url_path = (if p = [] then ''/'' else p),
                         url_query = q, url_fragment = f\<rparr>)
         else None)"


section \<open>Snapshot file names\<close>

text \<open>
  \<open>createSafeFileName\<close> of the page reporter (the first script): every character outside
  \<open>[a-zA-Z0-9]\<close> becomes an underscore, runs collapse, one underscore is trimmed at each
  end, the name is cut to 100 characters, and the empty name becomes \<open>homepage\<close>.
\<close>

definition safeName :: "string \<Rightarrow> string" where
  "safeName s =
     (let fileName = replace_outside is_alnum s;
          fileName = trim_underscore (collapse_underscores fileName);
          fileName = (if length fileName > 100 then take 100 fileName else fileName)
      in or_else fileName ''homepage'')"

definition createSafeFileName :: "url_parser \<Rightarrow> string \<Rightarrow> string" where
  "createSafeFileName P url =
     (case P url None of
        None \<Rightarrow> ''invalid_url''
      | Some urlObj \<Rightarrow> safeName (hostname urlObj @ pathname urlObj))"

text \<open>
  \<open>createSafeFileName\<close> of the UI tester (the second script and \<open>ui-tester.js\<close>): the
  class kept is \<open>[a-zA-Z0-9.-]\<close>, there is no cut, and the empty name becomes \<open>index\<close>.
\<close>

definition safeName_ui :: "string \<Rightarrow> string" where
  "safeName_ui s =
     (let filename = replace_outside is_alnum_dot_dash s;
          filename = collapse_underscores filename;
          filename = trim_underscore filename
      in or_else filename ''index'')"

definition createSafeFileName_ui :: "url_parser \<Rightarrow> string \<Rightarrow> string" where
  "createSafeFileName_ui P url =
     (case P url None of
        None \<Rightarrow> ''invalid_url''
      | Some urlObj \<Rightarrow> safeName_ui (hostname urlObj @ pathname urlObj))"


section \<open>URL helpers of the UI tester\<close>

definition isValidUrl :: "url_parser \<Rightarrow> string \<Rightarrow> bool" where
  "isValidUrl P s = (case P s None of None \<Rightarrow> False | Some u \<Rightarrow> True)"

definition getDomain :: "url_parser \<Rightarrow> string \<Rightarrow> string option" where
  "getDomain P url = (case P url None of None \<Rightarrow> None | Some u \<Rightarrow> Some (hostname u))"

definition normalizeUrl :: "url_parser \<Rightarrow> string \<Rightarrow> string \<Rightarrow> string option" where
  \<comment> \<open>\<open>None\<close> is the \<open>null\<close> the function returns\<close>
  "normalizeUrl P url baseUrl =
     (if startsWith url ''/'' then
        (case P baseUrl None of
           None \<Rightarrow> None
         | Some base \<Rightarrow> Some (protocol base @ ''//'' @ host base @ url))
      else if startsWith url ''#'' then None
      else if startsWith url ''mailto:'' \<or> startsWith url ''tel:''
              \<or> startsWith url ''javascript:'' then None
      else (case P url (Some baseUrl) of
              None \<Rightarrow> None
            | Some fullUrl \<Rightarrow> Some (href (clear_hash fullUrl))))"

definition getPathDepth :: "url_parser \<Rightarrow> string \<Rightarrow> nat" where
  "getPathDepth P url =
     (case P url None of
        None \<Rightarrow> 0
      | Some urlObj \<Rightarrow>
          length (filter (\<lambda>part. length part > 0) (splitOn CHR ''/'' (pathname urlObj))))"


section \<open>Page records and the browser\<close>

datatype page_type = MainPage | SubPage

datatype page_status = Pending | Success | Error

text \<open>
  One record type holds the page objects of both scripts; a property that is \<open>null\<close> or
  absent is \<open>None\<close>.
\<close>

record pageInfo =
  url :: string
  pageType :: page_type
  pathDepth :: nat
  path :: string
  status :: page_status
  title :: "string option"
  screenshotPath :: "string option"
  errorMessage :: "string option"
  canonical :: "string option"

type_synonym bytes = "nat list"

text \<open>
  The browser is the environment. \<open>B u\<close> is what \<open>page.goto(u)\<close> meets: \<open>Inl msg\<close> when
  the navigation throws an error with that message, otherwise the loaded document, whose
  fields are the results of the later calls on the page, each of which may throw too.
\<close>

record rendered =
  doc_title :: "string + string"
  doc_canonical :: "string + string option"
  doc_screenshot :: "string + bytes"
  doc_links :: "string + string list"

type_synonym browser = "string \<Rightarrow> string + rendered"

definition path_join :: "string \<Rightarrow> string \<Rightarrow> string" where
  \<comment> \<open>\<open>path.join(dir, name)\<close> for a normalised directory and a file name without separators\<close>
  "path_join dir name = dir @ ''/'' @ name"


section \<open>The baseline crawl: \<open>crawlAndScreenshot\<close>\<close>

text \<open>
  \<open>navigated\<close> is not a variable of the source: it logs the calls of \<open>page.goto\<close> in order.
  \<open>files\<close> are the image files of the baseline folder and \<open>pagesJson\<close> is its
  \<open>pages.json\<close>, held as the array that \<open>JSON.parse\<close> reads back from the text that
  \<open>JSON.stringify\<close> wrote. The parameter \<open>folderPath\<close> is the baseline folder, which the
  source names after the domain and the local time.
\<close>

record crawl_state =
  visitedUrls :: "string set"
  urlsToVisit :: "string list"
  pages :: "pageInfo list"
  files :: "string \<rightharpoonup> bytes"
  pagesJson :: "pageInfo list option"
  navigated :: "string list"

definition enqueueLink ::
  "url_parser \<Rightarrow> string \<Rightarrow> string \<Rightarrow> string set \<Rightarrow> string list \<Rightarrow> string \<Rightarrow> string list" where
  \<comment> \<open>the body of the loop over the discovered links\<close>
  "enqueueLink P domain currentUrl visited queue link =
     (case normalizeUrl P link currentUrl of
        None \<Rightarrow> queue
      | Some normalizedUrl \<Rightarrow>
          if normalizedUrl \<noteq> [] \<and> getDomain P normalizedUrl = Some domain
             \<and> normalizedUrl \<notin> visited \<and> normalizedUrl \<notin> set queue
          then queue @ [normalizedUrl] else queue)"

definition tryVisit ::
  "url_parser \<Rightarrow> browser \<Rightarrow> string \<Rightarrow> string \<Rightarrow> string \<Rightarrow> string \<Rightarrow> crawl_state
     \<Rightarrow> string option \<times> crawl_state" where
  \<comment> \<open>the \<open>try\<close> block: the state it leaves, and the message of the error it threw, if any\<close>
  "tryVisit P B folderPath domain startUrl currentUrl s0 =
     (let s = s0\<lparr>navigated := navigated s0 @ [currentUrl]\<rparr> in
      case B currentUrl of
        Inl e \<Rightarrow> (Some e, s)
      | Inr doc \<Rightarrow>
     (case doc_title doc of
        Inl e \<Rightarrow> (Some e, s)
      | Inr t \<Rightarrow>
     (case doc_canonical doc of
        Inl e \<Rightarrow> (Some e, s)
      | Inr c \<Rightarrow>
     (let fileName = createSafeFileName_ui P currentUrl;
          shotPath = path_join folderPath (fileName @ ''.png'')
      in case doc_screenshot doc of
        Inl e \<Rightarrow> (Some e, s)
      | Inr img \<Rightarrow>
     (let s1 = s\<lparr>files := (files s)(shotPath \<mapsto> img)\<rparr>;
          depth = getPathDepth P currentUrl;
          ty = (if currentUrl = startUrl then MainPage else SubPage)
      in case P currentUrl None of
        None \<Rightarrow> (Some ''Invalid URL'', s1)
      | Some urlObj \<Rightarrow>
     (let info = \<lparr>url = currentUrl, pageType = ty, pathDepth = depth,
                   path = pathname urlObj, status = Success, title = Some t,
                   screenshotPath = Some shotPath, errorMessage = None,
                   canonical = Some (case c of None \<Rightarrow> currentUrl
                                     | Some h \<Rightarrow> or_else h currentUrl)\<rparr>;
          s2 = s1\<lparr>pages := pages s1 @ [info]\<rparr>
      in case doc_links doc of
        Inl e \<Rightarrow> (Some e, s2)
      | Inr links \<Rightarrow>
          (None, s2\<lparr>urlsToVisit :=
                      foldl (enqueueLink P domain currentUrl (visitedUrls s2))
                            (urlsToVisit s2) links\<rparr>)))))))"

definition catchVisit ::
  "url_parser \<Rightarrow> string \<Rightarrow> string \<Rightarrow> string \<Rightarrow> crawl_state \<Rightarrow> string + crawl_state" where
  \<comment> \<open>the \<open>catch\<close> block; \<open>Inl\<close> when \<open>new URL(currentUrl)\<close> throws inside it\<close>
  "catchVisit P startUrl currentUrl e s =
     (case P currentUrl None of
        None \<Rightarrow> Inl ''Invalid URL''
      | Some urlObj \<Rightarrow>
          Inr (s\<lparr>pages := pages s @
                 [\<lparr>url = currentUrl,
                   pageType = (if currentUrl = startUrl then MainPage else SubPage),
                   pathDepth = getPathDepth P currentUrl, path = pathname urlObj,
                   status = Error, title = None, screenshotPath = None,
                   errorMessage = Some e, canonical = Some currentUrl\<rparr>]\<rparr>))"

definition crawl_step ::
  "url_parser \<Rightarrow> browser \<Rightarrow> string \<Rightarrow> string \<Rightarrow> string \<Rightarrow> crawl_state \<Rightarrow> string + crawl_state" where
  \<comment> \<open>one iteration of \<open>while (urlsToVisit.length > 0)\<close>\<close>
  "crawl_step P B folderPath domain startUrl s =
     (case urlsToVisit s of
        [] \<Rightarrow> Inr s
      | currentUrl # rest \<Rightarrow>
          (let s0 = s\<lparr>urlsToVisit := rest\<rparr> in
           if currentUrl \<in> visitedUrls s0 then Inr s0
           else (let s1 = s0\<lparr>visitedUrls := insert currentUrl (visitedUrls s0)\<rparr> in
                 case tryVisit P B folderPath domain startUrl currentUrl s1 of
                   (None, s2) \<Rightarrow> Inr s2
                 | (Some e, s2) \<Rightarrow> catchVisit P startUrl currentUrl e s2)))"

fun crawl_iter ::
  "nat \<Rightarrow> url_parser \<Rightarrow> browser \<Rightarrow> string \<Rightarrow> string \<Rightarrow> string \<Rightarrow> crawl_state
     \<Rightarrow> string + crawl_state" where
  \<comment> \<open>the loop after at most \<open>n\<close> iterations\<close>
  "crawl_iter 0 P B folderPath domain startUrl s = Inr s"
| "crawl_iter (Suc n) P B folderPath domain startUrl s =
     (if urlsToVisit s = [] then Inr s
      else case crawl_step P B folderPath domain startUrl s of
             Inl e \<Rightarrow> Inl e
           | Inr s' \<Rightarrow> crawl_iter n P B folderPath domain startUrl s')"

definition crawl_init :: "(string \<rightharpoonup> bytes) \<Rightarrow> string \<Rightarrow> crawl_state" where
  "crawl_init fs startUrl =
     \<lparr>visitedUrls = {}, urlsToVisit = [startUrl], pages = [], files = fs,
      pagesJson = None, navigated = []\<rparr>"

definition crawlAndScreenshot ::
  "nat \<Rightarrow> url_parser \<Rightarrow> browser \<Rightarrow> (string \<rightharpoonup> bytes) \<Rightarrow> string \<Rightarrow> string
     \<Rightarrow> (string + crawl_state) option" where
  \<comment> \<open>\<open>None\<close>: the loop has not ended within \<open>n\<close> iterations; \<open>Some (Inl msg)\<close>: the
      function threw; \<open>Some (Inr s)\<close>: it returned, having written \<open>pages.json\<close>\<close>
  "crawlAndScreenshot n P B fs folderPath startUrl =
     (case getDomain P startUrl of
        None \<Rightarrow> Some (Inl ''Invalid starting URL'')
      | Some domain \<Rightarrow>
          if domain = [] then Some (Inl ''Invalid starting URL'')
          else (case crawl_iter n P B folderPath domain startUrl (crawl_init fs startUrl) of
                  Inl e \<Rightarrow> Some (Inl e)
                | Inr s \<Rightarrow> if urlsToVisit s = [] then Some (Inr (s\<lparr>pagesJson := Some (pages s)\<rparr>))
                           else None))"


section \<open>The page reporter: \<open>categorizePage\<close> and \<open>generatePageReport\<close>\<close>

definition strip_trailing_slash :: "string \<Rightarrow> string" where
  \<comment> \<open>\<open>s.replace(/\/$/, '')\<close>\<close>
  "strip_trailing_slash s = (if s \<noteq> [] \<and> last s = CHR ''/'' then butlast s else s)"

definition pathSegments :: "URL \<Rightarrow> string list" where
  "pathSegments urlObj =
     filter (\<lambda>segment. length segment > 0)
            (splitOn CHR ''/'' (strip_trailing_slash (pathname urlObj)))"

definition categorizePage :: "url_parser \<Rightarrow> string \<Rightarrow> page_type" where
  "categorizePage P u =
     (case P u None of
        None \<Rightarrow> MainPage
      | Some urlObj \<Rightarrow> if length (pathSegments urlObj) \<le> 1 then MainPage else SubPage)"

text \<open>
  \<open>goto_log\<close> logs the calls of \<open>page.goto\<close>, as \<open>navigated\<close> does for the baseline crawl.
  The reporter reads title, canonical link and links in one \<open>page.evaluate\<close>, which
  throws when any of the three fields of the document is an error.
\<close>

record report_state =
  visited :: "string set"
  toVisit :: "string list"
  mainPages :: "string set"
  subPages :: "string set"
  errorPageSet :: "string set"
  pageDetails :: "pageInfo list"
  shots :: "string \<rightharpoonup> bytes"
  processedCount :: nat
  goto_log :: "string list"

definition evaluatePage :: "rendered \<Rightarrow> string + (string \<times> string option \<times> string list)" where
  "evaluatePage doc =
     (case doc_title doc of Inl e \<Rightarrow> Inl e | Inr t \<Rightarrow>
     (case doc_canonical doc of Inl e \<Rightarrow> Inl e | Inr c \<Rightarrow>
     (case doc_links doc of Inl e \<Rightarrow> Inl e | Inr ls \<Rightarrow> Inr (t, c, ls))))"

definition internalLink :: "url_parser \<Rightarrow> string \<Rightarrow> string \<Rightarrow> bool" where
  "internalLink P hostname0 link =
     (case P link None of None \<Rightarrow> False | Some u \<Rightarrow> hostname u = hostname0)"

definition report_visit ::
  "url_parser \<Rightarrow> browser \<Rightarrow> string \<Rightarrow> string option \<Rightarrow> string \<Rightarrow> pageInfo \<Rightarrow> report_state
     \<Rightarrow> report_state" where
  \<comment> \<open>the \<open>try\<close> and \<open>catch\<close> of one page; \<open>detail\<close> is the object just pushed on
      \<open>pageDetails\<close>, whose last element the source then updates in place\<close>
  "report_visit P B hostname0 screenshotFolder currentUrl detail s0 =
     (let s = s0\<lparr>goto_log := goto_log s0 @ [currentUrl]\<rparr>;
          failed = (\<lambda>e. s\<lparr>errorPageSet := insert currentUrl (errorPageSet s),
                          pageDetails := pageDetails s @
                            [detail\<lparr>status := Error, errorMessage := Some e\<rparr>]\<rparr>)
      in case B currentUrl of
        Inl e \<Rightarrow> failed e
      | Inr doc \<Rightarrow>
     (case evaluatePage doc of
        Inl e \<Rightarrow> failed e
      | Inr (t, c, links) \<Rightarrow>
     (let d1 = detail\<lparr>status := Success, title := Some t, canonical := c\<rparr>;
          (d2, fs) =
            (case screenshotFolder of
               None \<Rightarrow> (d1, shots s)
             | Some folder \<Rightarrow>
                 (let shotPath = path_join folder (createSafeFileName P currentUrl @ ''.png'')
                  in case doc_screenshot doc of
                       Inl e \<Rightarrow> (d1, shots s)
                     | Inr img \<Rightarrow> (d1\<lparr>screenshotPath := Some shotPath\<rparr>,
                                   (shots s)(shotPath \<mapsto> img))));
          internalLinks = filter (internalLink P hostname0) links;
          filteredLinks = filter (\<lambda>link. \<not> endsWith link ''#'') internalLinks;
          newLinks = filter (\<lambda>link. link \<notin> visited s) filteredLinks
      in s\<lparr>pageDetails := pageDetails s @ [d2], shots := fs,
            toVisit := toVisit s @ newLinks\<rparr>)))"

definition report_step ::
  "url_parser \<Rightarrow> browser \<Rightarrow> string \<Rightarrow> string option \<Rightarrow> report_state \<Rightarrow> string + report_state" where
  \<comment> \<open>one iteration of \<open>while (toVisit.length > 0)\<close>; \<open>Inl\<close> when \<open>new URL(currentUrl)\<close>
      throws outside the \<open>try\<close>\<close>
  "report_step P B hostname0 screenshotFolder s =
     (case toVisit s of
        [] \<Rightarrow> Inr s
      | currentUrl # rest \<Rightarrow>
          (let s0 = s\<lparr>toVisit := rest\<rparr> in
           if currentUrl \<in> visited s0 then Inr s0
           else (let s1 = s0\<lparr>visited := insert currentUrl (visited s0)\<rparr>;
                     ty = categorizePage P currentUrl
                 in case P currentUrl None of
                      None \<Rightarrow> Inl ''Invalid URL''
                    | Some urlObj \<Rightarrow>
                       (let s2 = (if ty = MainPage
                                  then s1\<lparr>mainPages := insert currentUrl (mainPages s1)\<rparr>
                                  else s1\<lparr>subPages := insert currentUrl (subPages s1)\<rparr>);
                            detail = \<lparr>url = currentUrl, pageType = ty,
                                      pathDepth = length (pathSegments urlObj),
                                      path = pathname urlObj, status = Pending,
                                      title = None, screenshotPath = None,
                                      errorMessage = None, canonical = None\<rparr>;
                            s3 = report_visit P B hostname0 screenshotFolder currentUrl detail s2
                        in Inr (s3\<lparr>processedCount := processedCount s3 + 1\<rparr>)))))"

fun report_iter ::
  "nat \<Rightarrow> url_parser \<Rightarrow> browser \<Rightarrow> string \<Rightarrow> string option \<Rightarrow> report_state
     \<Rightarrow> string + report_state" where
  "report_iter 0 P B hostname0 screenshotFolder s = Inr s"
| "report_iter (Suc n) P B hostname0 screenshotFolder s =
     (if toVisit s = [] then Inr s
      else case report_step P B hostname0 screenshotFolder s of
             Inl e \<Rightarrow> Inl e
           | Inr s' \<Rightarrow> report_iter n P B hostname0 screenshotFolder s')"

definition report_init :: "string \<Rightarrow> report_state" where
  "report_init startUrl =
     \<lparr>visited = {}, toVisit = [startUrl], mainPages = {}, subPages = {}, errorPageSet = {},
      pageDetails = [], shots = Map.empty, processedCount = 0, goto_log = []\<rparr>"

definition generatePageReport ::
  "nat \<Rightarrow> url_parser \<Rightarrow> browser \<Rightarrow> string option \<Rightarrow> string \<Rightarrow> (string + report_state) option" where
  \<comment> \<open>\<open>screenshotFolder\<close> is \<open>None\<close> when no screenshots are taken or the folder could not
      be created; \<open>None\<close> as result: the loop has not ended within \<open>n\<close> iterations\<close>
  "generatePageReport n P B screenshotFolder startUrl =
     (case P startUrl None of
        None \<Rightarrow> Some (Inl ''Invalid URL'')
      | Some u \<Rightarrow>
          (case report_iter n P B (hostname u) screenshotFolder (report_init startUrl) of
             Inl e \<Rightarrow> Some (Inl e)
           | Inr s \<Rightarrow> if toVisit s = [] then Some (Inr s) else None))"


section \<open>Numbers and their text\<close>

text \<open>
  A JavaScript number is a double. The counts of pixels and of pages are integers below
  \<open>2 ^ 53\<close>, which doubles hold exactly, so they are natural numbers here. A quotient or
  a product is the double nearest to the exact result, a tie going to the even
  significand (\<open>to_double\<close>); a double is kept as the rational it is. For counts below
  \<open>2 ^ 53\<close> the results are far from the overflow and underflow of doubles, which are
  not modelled. \<open>NaN\<close> and \<open>Infinity\<close> come from a division by zero.
\<close>

definition exponent :: "rat \<Rightarrow> int" where
  \<comment> \<open>for \<open>x > 0\<close>: the \<open>e\<close> with \<open>2 ^ e \<le> x < 2 ^ (e + 1)\<close>, found from the bit lengths of
      numerator and denominator\<close>
  "exponent x =
     (case quotient_of x of
        (p, q) \<Rightarrow> (let e = bitlen p - bitlen q in if 2 powi e \<le> x then e else e - 1))"

definition round_half_even :: "rat \<Rightarrow> int" where
  \<comment> \<open>the nearest integer, the even one of two\<close>
  "round_half_even m =
     (let f = \<lfloor>m\<rfloor>; d = m - of_int f
      in if d < 1 / 2 then f else if 1 / 2 < d then f + 1 else if even f then f else f + 1)"

definition to_double :: "rat \<Rightarrow> rat" where
  \<comment> \<open>rounding to 53 significant bits\<close>
  "to_double x =
     (if x = 0 then 0
      else (let u = 2 powi (exponent \<bar>x\<bar> - 52)
            in sgn x * of_int (round_half_even (\<bar>x\<bar> / u)) * u))"

datatype jsnum = Num rat | NaN | Infinity

definition js_div :: "nat \<Rightarrow> nat \<Rightarrow> jsnum" where
  \<comment> \<open>\<open>a / b\<close> for two counts\<close>
  "js_div a b = (if b = 0 then (if a = 0 then NaN else Infinity)
                 else Num (to_double (of_nat a / of_nat b)))"

definition js_times :: "jsnum \<Rightarrow> nat \<Rightarrow> jsnum" where
  \<comment> \<open>\<open>x * k\<close> for a positive integer \<open>k\<close>\<close>
  "js_times x k =
     (case x of Num q \<Rightarrow> Num (to_double (q * of_nat k)) | NaN \<Rightarrow> NaN | Infinity \<Rightarrow> Infinity)"

definition js_less :: "jsnum \<Rightarrow> rat \<Rightarrow> bool" where
  \<comment> \<open>\<open>x < r\<close> for a double \<open>r\<close>: false for \<open>NaN\<close> and for \<open>Infinity\<close>\<close>
  "js_less x r = (case x of Num q \<Rightarrow> q < r | NaN \<Rightarrow> False | Infinity \<Rightarrow> False)"

definition digit :: "nat \<Rightarrow> char" where
  "digit d = char_of (48 + d)"

fun show_nat :: "nat \<Rightarrow> string" where
  "show_nat n = (if n < 10 then [digit n] else show_nat (n div 10) @ [digit (n mod 10)])"

declare show_nat.simps [simp del]

definition toFixed2 :: "jsnum \<Rightarrow> string" where
  \<comment> \<open>\<open>x.toFixed(2)\<close> for \<open>0 \<le> x < 10 ^ 21\<close>: the multiple of 1/100 nearest to the exact
      value of the double, the larger of two\<close>
  "toFixed2 x =
     (case x of
        Num q \<Rightarrow> (let n = nat \<lfloor>q * 100 + 1 / 2\<rfloor>
                  in show_nat (n div 100) @ ''.'' @ [digit (n mod 100 div 10), digit (n mod 10)])
      | NaN \<Rightarrow> ''NaN''
      | Infinity \<Rightarrow> ''Infinity'')"

definition nl :: string where
  "nl = [CHR 0x0A]"


section \<open>The comparison pass: \<open>compareMenu\<close> of the second script\<close>

text \<open>
  The image library is the environment: \<open>png_read\<close> is \<open>PNG.sync.read\<close>, \<open>png_write\<close> is
  \<open>PNG.sync.write\<close> followed by writing the file, and \<open>pixelmatch a b w h\<close> is
  \<open>pixelmatch(a, b, diff.data, w, h, {threshold: 0.1})\<close> for a fresh \<open>w\<close> by \<open>h\<close> diff
  image: the number of differing pixels and the data it leaves in the diff image. Each
  may throw (\<open>Inl\<close>).
\<close>

record image =
  width :: nat
  height :: nat
  data :: bytes

record pnglib =
  png_read :: "bytes \<Rightarrow> string + image"
  png_write :: "image \<Rightarrow> string + bytes"
  pixelmatch :: "bytes \<Rightarrow> bytes \<Rightarrow> nat \<Rightarrow> nat \<Rightarrow> string + (nat \<times> bytes)"

record compare_state =
  matchCount :: nat
  changeCount :: nat
  errorCount :: nat
  changedPages :: "(string \<times> string \<times> string) list"
  unchangedPages :: "(string \<times> string option \<times> string) list"
  errorPages :: "(string \<times> string) list"
  totalPixelsCompared :: nat
  totalDiffPixels :: nat
  successfulComparisons :: nat
  processed :: nat
  disk :: "string \<rightharpoonup> bytes"

definition compare_init :: "(string \<rightharpoonup> bytes) \<Rightarrow> compare_state" where
  "compare_init fs =
     \<lparr>matchCount = 0, changeCount = 0, errorCount = 0, changedPages = [],
      unchangedPages = [], errorPages = [], totalPixelsCompared = 0, totalDiffPixels = 0,
      successfulComparisons = 0, processed = 0, disk = fs\<rparr>"

text \<open>
  The calls inside the \<open>try\<close> block are the same in both scripts. \<open>diffPage\<close> makes them
  in the source's order and gives what became of the page, with the files as the block
  leaves them: an error was thrown, the baseline file does not exist, or the two images
  were compared, with the number of differing pixels, \<open>width * height\<close> of the baseline
  image and the path of the diff image.
\<close>

datatype outcome = Thrown string | NoBaseline | Diffed nat nat string

definition baselineFile :: "(string \<rightharpoonup> bytes) \<Rightarrow> pageInfo \<Rightarrow> bytes option" where
  \<comment> \<open>\<open>fs.existsSync(p.screenshotPath)\<close>, and the file read when it exists\<close>
  "baselineFile fs p = (case screenshotPath p of None \<Rightarrow> None | Some b \<Rightarrow> fs b)"

definition diffPage ::
  "url_parser \<Rightarrow> browser \<Rightarrow> pnglib \<Rightarrow> string \<Rightarrow> (string \<rightharpoonup> bytes) \<Rightarrow> pageInfo
     \<Rightarrow> outcome \<times> (string \<rightharpoonup> bytes)" where
  "diffPage P B L tempFolder fs p =
     (case B (url p) of
        Inl e \<Rightarrow> (Thrown e, fs)
      | Inr doc \<Rightarrow>
     (let fileName = createSafeFileName_ui P (url p);
          newScreenshot = path_join tempFolder (fileName @ ''.png'')
      in case doc_screenshot doc of
        Inl e \<Rightarrow> (Thrown e, fs)
      | Inr shot \<Rightarrow>
     (let fs1 = fs(newScreenshot \<mapsto> shot)
      in case baselineFile fs1 p of
        None \<Rightarrow> (NoBaseline, fs1)
      | Some fileA \<Rightarrow>
     (case png_read L fileA of
        Inl e \<Rightarrow> (Thrown e, fs1)
      | Inr imgA \<Rightarrow>
     (case png_read L shot of
        Inl e \<Rightarrow> (Thrown e, fs1)
      | Inr imgB \<Rightarrow>
     (case pixelmatch L (data imgA) (data imgB) (width imgA) (height imgA) of
        Inl e \<Rightarrow> (Thrown e, fs1)
      | Inr (diffPixels, diffData) \<Rightarrow>
     (let diffPath = path_join tempFolder (fileName @ ''_diff.png'')
      in case png_write L \<lparr>width = width imgA, height = height imgA, data = diffData\<rparr> of
        Inl e \<Rightarrow> (Thrown e, fs1)
      | Inr diffFile \<Rightarrow>
          (Diffed diffPixels (width imgA * height imgA) diffPath,
           fs1(diffPath \<mapsto> diffFile)))))))))"

definition caught :: "string \<Rightarrow> string \<Rightarrow> compare_state \<Rightarrow> compare_state" where
  \<comment> \<open>the \<open>catch\<close> block\<close>
  "caught u e s = s\<lparr>errorCount := errorCount s + 1, errorPages := errorPages s @ [(u, e)]\<rparr>"

definition comparePage ::
  "url_parser \<Rightarrow> browser \<Rightarrow> pnglib \<Rightarrow> string \<Rightarrow> compare_state \<Rightarrow> pageInfo \<Rightarrow> compare_state" where
  \<comment> \<open>the body of \<open>for (const p of successPages)\<close>\<close>
  "comparePage P B L tempFolder s p =
     (let (r, fs) = diffPage P B L tempFolder (disk s) p;
          s1 = s\<lparr>disk := fs\<rparr>;
          s' =
            (case r of
               Thrown e \<Rightarrow> caught (url p) e s1
             | NoBaseline \<Rightarrow>
                 s1\<lparr>errorCount := errorCount s1 + 1,
                    errorPages := errorPages s1 @ [(url p, ''Baseline screenshot not found'')]\<rparr>
             | Diffed diffPixels area diffPath \<Rightarrow>
                 (let percentDiff = js_div diffPixels area;
                      s2 = s1\<lparr>totalPixelsCompared := totalPixelsCompared s1 + area,
                              totalDiffPixels := totalDiffPixels s1 + diffPixels,
                              successfulComparisons := successfulComparisons s1 + 1\<rparr>
                  in if js_less percentDiff (to_double (1 / 100))
                     then s2\<lparr>matchCount := matchCount s2 + 1,
                             unchangedPages := unchangedPages s2 @
                               [(url p, title p, toFixed2 (js_times percentDiff 100))]\<rparr>
                     else s2\<lparr>changeCount := changeCount s2 + 1,
                             changedPages := changedPages s2 @
                               [(url p, diffPath, toFixed2 (js_times percentDiff 100))]\<rparr>))
      in s'\<lparr>processed := processed s' + 1\<rparr>)"

definition successPages :: "pageInfo list \<Rightarrow> pageInfo list" where
  "successPages baselinePages = filter (\<lambda>p. status p = Success) baselinePages"

definition compareLoop ::
  "url_parser \<Rightarrow> browser \<Rightarrow> pnglib \<Rightarrow> string \<Rightarrow> (string \<rightharpoonup> bytes) \<Rightarrow> pageInfo list
     \<Rightarrow> compare_state" where
  \<comment> \<open>the state after the loop over the success pages of the loaded \<open>pages.json\<close>\<close>
  "compareLoop P B L tempFolder fs baselinePages =
     foldl (comparePage P B L tempFolder) (compare_init fs) (successPages baselinePages)"

definition overallDiffPercentage :: "compare_state \<Rightarrow> string" where
  "overallDiffPercentage s =
     (if successfulComparisons s > 0
      then toFixed2 (js_times (js_div (totalDiffPixels s) (totalPixelsCompared s)) 100)
      else ''0.00'')"

definition numbered :: "('a \<Rightarrow> string) \<Rightarrow> 'a list \<Rightarrow> string" where
  \<comment> \<open>\<open>xs.forEach((x, i) => report += `  [${i + 1}] ${line(x)}\n`)\<close>\<close>
  "numbered line xs =
     concat (map (\<lambda>(i, x). ''  ['' @ show_nat (i + 1) @ ''] '' @ line x @ nl)
                 (zip [0..<length xs] xs))"

definition changedLine :: "string \<times> string \<times> string \<Rightarrow> string" where
  "changedLine c = (case c of (u, d, pc) \<Rightarrow>
     u @ '' (diff: '' @ d @ '', diff: '' @ pc @ ''%)'')"

definition unchangedLine :: "string \<times> string option \<times> string \<Rightarrow> string" where
  "unchangedLine c = (case c of (u, t, pc) \<Rightarrow>
     u @ '' ('' @ or_else (case t of None \<Rightarrow> [] | Some x \<Rightarrow> x) ''No title''
       @ '', diff: '' @ pc @ ''%)'')"

definition errorLine :: "string \<times> string \<Rightarrow> string" where
  "errorLine c = (case c of (u, e) \<Rightarrow> u @ '' (Error: '' @ e @ '')'')"

definition listing :: "string \<Rightarrow> ('a \<Rightarrow> string) \<Rightarrow> 'a list \<Rightarrow> string" where
  \<comment> \<open>\<open>if (xs.length > 0) { report += '\ntitle\n'; xs.forEach(...) }\<close>\<close>
  "listing heading line xs =
     (if length xs > 0 then nl @ heading @ nl @ numbered line xs else [])"

definition reportHead :: "string \<Rightarrow> string \<Rightarrow> string \<Rightarrow> nat \<Rightarrow> string" where
  "reportHead website date timestamp n =
     ''=== Compare Report ==='' @ nl @
     ''Baseline: '' @ website @ '' ('' @ date @ '')'' @ nl @
     ''Compared at: '' @ timestamp @ nl @
     ''Total pages compared: '' @ show_nat n @ nl"

definition compareReport ::
  "string \<Rightarrow> string \<Rightarrow> string \<Rightarrow> nat \<Rightarrow> compare_state \<Rightarrow> string" where
  \<comment> \<open>the text written to the report file, for \<open>n\<close> success pages\<close>
  "compareReport website date timestamp n s =
     reportHead website date timestamp n @
     ''Pages matched: '' @ show_nat (matchCount s) @ nl @
     ''Pages changed: '' @ show_nat (changeCount s) @ nl @
     ''Pages with errors: '' @ show_nat (errorCount s) @ nl @
     ''Overall difference: '' @ overallDiffPercentage s @ ''%'' @ nl @
     listing ''Changed pages:'' changedLine (changedPages s) @
     listing ''Unchanged pages:'' unchangedLine (unchangedPages s) @
     listing ''Pages with errors:'' errorLine (errorPages s)"


section \<open>The comparison pass of \<open>ui-tester.js\<close>\<close>

text \<open>
  The earlier script keeps two counters and the list of changed pages; a missing baseline
  file and a caught error are written to the console only.
\<close>

record compare_state_js =
  matchCount_js :: nat
  changeCount_js :: nat
  changedPages_js :: "(string \<times> string \<times> string) list"
  console_js :: "string list"
  disk_js :: "string \<rightharpoonup> bytes"

definition logged :: "string \<Rightarrow> compare_state_js \<Rightarrow> compare_state_js" where
  "logged m s = s\<lparr>console_js := console_js s @ [m]\<rparr>"

definition comparePage_js ::
  "url_parser \<Rightarrow> browser \<Rightarrow> pnglib \<Rightarrow> string \<Rightarrow> compare_state_js \<Rightarrow> pageInfo
     \<Rightarrow> compare_state_js" where
  "comparePage_js P B L tempFolder s p =
     (let (r, fs) = diffPage P B L tempFolder (disk_js s) p;
          s1 = s\<lparr>disk_js := fs\<rparr>
      in case r of
           Thrown e \<Rightarrow> logged (''Error comparing '' @ url p @ '': '' @ e) s1
         | NoBaseline \<Rightarrow> logged (''Baseline screenshot not found for '' @ url p) s1
         | Diffed diffPixels area diffPath \<Rightarrow>
             (let percentDiff = js_div diffPixels area
              in if js_less percentDiff (to_double (1 / 100))
                 then s1\<lparr>matchCount_js := matchCount_js s1 + 1\<rparr>
                 else s1\<lparr>changeCount_js := changeCount_js s1 + 1,
                         changedPages_js := changedPages_js s1 @
                           [(url p, diffPath, toFixed2 (js_times percentDiff 100))]\<rparr>))"

definition compareLoop_js ::
  "url_parser \<Rightarrow> browser \<Rightarrow> pnglib \<Rightarrow> string \<Rightarrow> (string \<rightharpoonup> bytes) \<Rightarrow> pageInfo list
     \<Rightarrow> compare_state_js" where
  "compareLoop_js P B L tempFolder fs baselinePages =
     foldl (comparePage_js P B L tempFolder)
           \<lparr>matchCount_js = 0, changeCount_js = 0, changedPages_js = [], console_js = [],
            disk_js = fs\<rparr>
           (successPages baselinePages)"

definition compareReport_js ::
  "string \<Rightarrow> string \<Rightarrow> string \<Rightarrow> nat \<Rightarrow> compare_state_js \<Rightarrow> string" where
  "compareReport_js website date timestamp n s =
     reportHead website date timestamp n @
     ''Pages matched: '' @ show_nat (matchCount_js s) @ nl @
     ''Pages changed: '' @ show_nat (changeCount_js s) @ nl @
     listing ''Changed pages:'' changedLine (changedPages_js s)"


section \<open>The results of a comparison pass, page by page\<close>

fun outcomes ::
  "url_parser \<Rightarrow> browser \<Rightarrow> pnglib \<Rightarrow> string \<Rightarrow> (string \<rightharpoonup> bytes) \<Rightarrow> pageInfo list
     \<Rightarrow> outcome list" where
  \<comment> \<open>what became of each page of the loop, in order, the files passing from page to page\<close>
  "outcomes P B L tempFolder fs [] = []"
| "outcomes P B L tempFolder fs (p # ps) =
     (case diffPage P B L tempFolder fs p of
        (r, fs') \<Rightarrow> r # outcomes P B L tempFolder fs' ps)"


section \<open>Environments for the examples\<close>

definition page_of :: "string \<Rightarrow> bytes \<Rightarrow> string list \<Rightarrow> rendered" where
  \<comment> \<open>a document that loads, with its title, its full-page screenshot and its links\<close>
  "page_of t img links =
     \<lparr>doc_title = Inr t, doc_canonical = Inr None, doc_screenshot = Inr img,
      doc_links = Inr links\<rparr>"

definition site :: "(string \<times> rendered) list \<Rightarrow> browser" where
  \<comment> \<open>the browser on a site of the listed pages; any other navigation fails\<close>
  "site ps u = (case map_of ps u of
                  None \<Rightarrow> Inl ''net::ERR_NAME_NOT_RESOLVED''
                | Some d \<Rightarrow> Inr d)"

text \<open>
  In the examples an image file is its width, its height and its RGBA data. The example
  \<open>pixelmatch\<close> makes the two size checks of the library, which compare the lengths of the
  buffers with each other and with \<open>width * height * 4\<close>, and then counts the pixels that
  are not equal. The library's colour threshold and anti-aliasing test are left out: the
  count is the library's for identical images, and for a single black pixel against a
  white one, which is all the examples use.
\<close>

definition raw_read :: "bytes \<Rightarrow> string + image" where
  "raw_read f =
     (case f of
        w # h # d \<Rightarrow> if length d = 4 * w * h then Inr \<lparr>width = w, height = h, data = d\<rparr>
                     else Inl ''Invalid file''
      | _ \<Rightarrow> Inl ''Invalid file'')"

fun pixels :: "bytes \<Rightarrow> bytes list" where
  "pixels (r # g # b # a # rest) = [r, g, b, a] # pixels rest"
| "pixels rest = []"

definition exact_pixelmatch :: "bytes \<Rightarrow> bytes \<Rightarrow> nat \<Rightarrow> nat \<Rightarrow> string + (nat \<times> bytes)" where
  "exact_pixelmatch a b w h =
     (if length a \<noteq> length b then Inl ''Image sizes do not match.''
      else if length a \<noteq> w * h * 4 then Inl ''Image data size does not match width/height.''
      else Inr (length (filter (\<lambda>(x, y). x \<noteq> y) (zip (pixels a) (pixels b))),
                replicate (length a) 0))"

definition example_lib :: pnglib where
  "example_lib =
     \<lparr>png_read = raw_read,
      png_write = (\<lambda>i. Inr (width i # height i # data i)),
      pixelmatch = exact_pixelmatch\<rparr>"

definition black :: bytes where
  "black = [0, 0, 0, 255]"

definition white :: bytes where
  "white = [255, 255, 255, 255]"

definition query_site :: browser where
  \<comment> \<open>a home page linking to two pages that differ in the query string only\<close>
  "query_site =
     site [(''https://h.com/'',
              page_of ''Home'' (1 # 1 # black) [''https://h.com/p?id=1'', ''https://h.com/p?id=2'']),
           (''https://h.com/p?id=1'', page_of ''One'' (1 # 1 # black) []),
           (''https://h.com/p?id=2'', page_of ''Two'' (1 # 1 # white) [])]"

definition twice_site :: browser where
  \<comment> \<open>a home page carrying the same link twice\<close>
  "twice_site =
     site [(''https://h.com/'', page_of ''Home'' [] [''https://h.com/a'', ''https://h.com/a'']),
           (''https://h.com/a'', page_of ''A'' [] [])]"

definition success_page :: "string \<Rightarrow> string \<Rightarrow> pageInfo" where
  \<comment> \<open>a success record of \<open>pages.json\<close> for a URL and its baseline screenshot\<close>
  "success_page u shot =
     \<lparr>url = u, pageType = SubPage, pathDepth = 1, path = ''/'', status = Success,
      title = Some ''T'', screenshotPath = Some shot, errorMessage = None,
      canonical = Some u\<rparr>"

definition home_site :: "bytes \<Rightarrow> browser" where
  \<comment> \<open>a site of one page, whose full-page screenshot is the given file\<close>
  "home_site shot = site [(''https://h.com/'', page_of ''Home'' shot [])]"

definition home_record :: pageInfo where
  "home_record = success_page ''https://h.com/'' ''base/h.com.png''"

definition dot :: bytes where
  \<comment> \<open>the image file of one black pixel\<close>
  "dot = 1 # 1 # black"

definition tall :: bytes where
  \<comment> \<open>the image file of two black pixels, one above the other\<close>
  "tall = 1 # 2 # black @ black"

definition wide :: bytes where
  \<comment> \<open>the image file of two black pixels side by side\<close>
  "wide = 2 # 1 # black @ black"


definition fragment_site :: browser where
  \<comment> \<open>a home page linking to one page with and without a fragment\<close>
  "fragment_site =
     site [(''https://h.com/'', page_of ''Home'' [] [''https://h.com/a#x'', ''https://h.com/a'']),
           (''https://h.com/a#x'', page_of ''A'' [] []),
           (''https://h.com/a'', page_of ''A'' [] [])]"

definition row :: bytes where
  \<comment> \<open>the image file of three black pixels in a row\<close>
  "row = 3 # 1 # black @ black @ black"

definition two_page_site :: browser where
  \<comment> \<open>the home page now renders one white pixel, the other page three black ones\<close>
  "two_page_site =
     site [(''https://h.com/'', page_of ''Home'' (1 # 1 # white) []),
           (''https://h.com/a'', page_of ''A'' row [])]"

definition two_page_baseline :: "pageInfo list" where
  "two_page_baseline =
     [success_page ''https://h.com/'' ''base/h.com.png'',
      success_page ''https://h.com/a'' ''base/h.com_a.png'']"

definition two_page_files :: "string \<rightharpoonup> bytes" where
  "two_page_files = [''base/h.com.png'' \<mapsto> dot, ''base/h.com_a.png'' \<mapsto> row]"


section \<open>Shapes of a file name\<close>

fun has_run :: "string \<Rightarrow> bool" where
  \<comment> \<open>two underscores in a row somewhere\<close>
  "has_run (a # b # s) = ((a = CHR ''_'' \<and> b = CHR ''_'') \<or> has_run (b # s))"
| "has_run s = False"

definition trimmed :: "string \<Rightarrow> bool" where
  \<comment> \<open>no underscore at either end\<close>
  "trimmed s = (s = [] \<or> (hd s \<noteq> CHR ''_'' \<and> last s \<noteq> CHR ''_''))"


section \<open>Invariants of the two crawls\<close>

definition crawl_inv :: "crawl_state \<Rightarrow> bool" where
  \<comment> \<open>no URL was navigated twice, the visited set is what was navigated, and the pending
      queue holds no URL twice and no visited URL\<close>
  "crawl_inv s =
     (distinct (navigated s) \<and> set (navigated s) = visitedUrls s
      \<and> distinct (urlsToVisit s) \<and> set (urlsToVisit s) \<inter> visitedUrls s = {})"

definition report_inv :: "report_state \<Rightarrow> bool" where
  \<comment> \<open>no URL was navigated twice, the visited set is what was navigated, and each
      navigation made one page record\<close>
  "report_inv r =
     (distinct (goto_log r) \<and> set (goto_log r) = visited r
      \<and> map url (pageDetails r) = goto_log r)"


section \<open>The comparison pass counts every page once\<close>

lemma comparePage_disk:
  "disk (comparePage P B L t s p) = snd (diffPage P B L t (disk s) p)"
  by (simp add: comparePage_def caught_def Let_def split: prod.splits outcome.splits)

lemma comparePage_counts:
  "matchCount (comparePage P B L t s p) + changeCount (comparePage P B L t s p)
     + errorCount (comparePage P B L t s p)
   = matchCount s + changeCount s + errorCount s + 1"
  by (simp add: comparePage_def caught_def Let_def split: prod.splits outcome.splits)

lemma comparePage_one_counter:
  "(matchCount (comparePage P B L t s p), changeCount (comparePage P B L t s p),
    errorCount (comparePage P B L t s p))
   \<in> {(matchCount s + 1, changeCount s, errorCount s),
       (matchCount s, changeCount s + 1, errorCount s),
       (matchCount s, changeCount s, errorCount s + 1)}"
  by (simp add: comparePage_def caught_def Let_def split: prod.splits outcome.splits)

lemma foldl_counts:
  "matchCount (foldl (comparePage P B L t) s ps)
     + changeCount (foldl (comparePage P B L t) s ps)
     + errorCount (foldl (comparePage P B L t) s ps)
   = matchCount s + changeCount s + errorCount s + length ps"
  by (induction ps arbitrary: s) (simp_all add: comparePage_counts)

text \<open>
  C10. In the comparison pass of the second script each page of the loop adds one to
  exactly one of \<open>matchCount\<close>, \<open>changeCount\<close> and \<open>errorCount\<close>, and after the loop the
  three add up to the number of records of the loaded manifest whose status is success.
\<close>

theorem compare_counters_partition:
  "(\<forall>s p. (matchCount (comparePage P B L tempFolder s p),
            changeCount (comparePage P B L tempFolder s p),
            errorCount (comparePage P B L tempFolder s p))
           \<in> {(matchCount s + 1, changeCount s, errorCount s),
               (matchCount s, changeCount s + 1, errorCount s),
               (matchCount s, changeCount s, errorCount s + 1)})
   \<and> matchCount (compareLoop P B L tempFolder fs baselinePages)
       + changeCount (compareLoop P B L tempFolder fs baselinePages)
       + errorCount (compareLoop P B L tempFolder fs baselinePages)
     = length (filter (\<lambda>p. status p = Success) baselinePages)"
proof (intro conjI allI)
  fix s p
  show "(matchCount (comparePage P B L tempFolder s p),
         changeCount (comparePage P B L tempFolder s p),
         errorCount (comparePage P B L tempFolder s p))
        \<in> {(matchCount s + 1, changeCount s, errorCount s),
            (matchCount s, changeCount s + 1, errorCount s),
            (matchCount s, changeCount s, errorCount s + 1)}"
    by (rule comparePage_one_counter)
next
  show "matchCount (compareLoop P B L tempFolder fs baselinePages)
          + changeCount (compareLoop P B L tempFolder fs baselinePages)
          + errorCount (compareLoop P B L tempFolder fs baselinePages)
        = length (filter (\<lambda>p. status p = Success) baselinePages)"
    using foldl_counts [of P B L tempFolder "compare_init fs" "successPages baselinePages"]
    by (simp add: compareLoop_def compare_init_def successPages_def)
qed


section \<open>Rounding to a double\<close>

lemma exponent_le:
  assumes "0 < x"
  shows "2 powi exponent x \<le> x"
proof -
  obtain p q where pq: "quotient_of x = (p, q)"
    by (cases "quotient_of x")
  have q: "0 < q"
    using quotient_of_denom_pos [OF pq] .
  have x: "x = of_int p / of_int q"
    using quotient_of_div [OF pq] .
  have p: "0 < p"
    using assms q unfolding x by (simp add: zero_less_divide_iff)
  let ?e = "bitlen p - bitlen q"
  show ?thesis
  proof (cases "2 powi ?e \<le> x")
    case True
    then show ?thesis
      by (simp add: exponent_def pq Let_def)
  next
    case False
    have bp: "1 \<le> bitlen p" "1 \<le> bitlen q"
      using p q by (auto simp: bitlen_alt_def)
    have a: "(2::rat) ^ nat (bitlen p - 1) \<le> of_int p"
    proof -
      have "(2::int) ^ nat (bitlen p - 1) \<le> p"
        using bitlen_bounds [OF p] by simp
      then have "of_int ((2::int) ^ nat (bitlen p - 1)) \<le> (of_int p :: rat)"
        by (rule of_int_le_iff [THEN iffD2])
      then show ?thesis by simp
    qed
    have b: "(of_int q :: rat) \<le> 2 ^ nat (bitlen q)"
    proof -
      have "q \<le> (2::int) ^ nat (bitlen q)"
        using bitlen_bounds [OF q] by simp
      then have "(of_int q :: rat) \<le> of_int ((2::int) ^ nat (bitlen q))"
        by (rule of_int_le_iff [THEN iffD2])
      then show ?thesis by simp
    qed
    have "(2::rat) powi (?e - 1) = 2 powi ((bitlen p - 1) - bitlen q)"
      by (simp add: algebra_simps)
    also have "\<dots> = 2 powi (bitlen p - 1) / 2 powi (bitlen q)"
      by (rule power_int_diff) simp
    also have "\<dots> = 2 ^ nat (bitlen p - 1) / 2 ^ nat (bitlen q)"
      using bp by (simp add: power_int_def)
    also have "\<dots> \<le> of_int p / of_int q"
      using a b q p by (intro frac_le) auto
    finally have "(2::rat) powi (?e - 1) \<le> x"
      by (simp add: x)
    moreover have "exponent x = ?e - 1"
      using False by (simp add: exponent_def pq Let_def)
    ultimately show ?thesis
      by simp
  qed
qed

lemma round_half_even_near: "\<bar>of_int (round_half_even m) - m\<bar> \<le> 1 / 2"
proof -
  have "of_int \<lfloor>m\<rfloor> \<le> m" "m < of_int \<lfloor>m\<rfloor> + 1"
    by linarith+
  then show ?thesis
    by (auto simp: round_half_even_def Let_def abs_le_iff)
qed

lemma round_half_even_nonneg: "0 \<le> m \<Longrightarrow> 0 \<le> round_half_even m"
  by (auto simp: round_half_even_def Let_def)

lemma to_double_nonneg: "0 \<le> x \<Longrightarrow> 0 \<le> to_double x"
  by (auto simp: to_double_def Let_def
           intro!: mult_nonneg_nonneg round_half_even_nonneg divide_nonneg_nonneg)

lemma to_double_near:
  assumes "0 \<le> x"
  shows "\<bar>to_double x - x\<bar> \<le> x / 2 ^ 53"
proof (cases "x = 0")
  case True
  then show ?thesis by (simp add: to_double_def)
next
  case False
  then have x: "0 < x"
    using assms by simp
  define u :: rat where "u = 2 powi (exponent x - 52)"
  have u: "0 < u"
    by (simp add: u_def zero_less_power_int)
  have td: "to_double x = of_int (round_half_even (x / u)) * u"
    using x by (simp add: to_double_def u_def Let_def)
  have "to_double x - x = (of_int (round_half_even (x / u)) - x / u) * u"
    using u by (simp add: td algebra_simps)
  then have "\<bar>to_double x - x\<bar> = \<bar>of_int (round_half_even (x / u)) - x / u\<bar> * u"
    using u by (simp add: abs_mult)
  also have "\<dots> \<le> 1 / 2 * u"
    using round_half_even_near [of "x / u"] u by (intro mult_right_mono) auto
  also have "\<dots> = 2 powi exponent x / 2 ^ 53"
    by (simp add: u_def power_int_diff)
  also have "\<dots> \<le> x / 2 ^ 53"
    using exponent_le [OF x] by (intro divide_right_mono) auto
  finally show ?thesis .
qed

lemma hundredths_near:
  fixes r :: rat
  assumes "0 \<le> r"
  defines "n \<equiv> nat \<lfloor>to_double (to_double r * 100) * 100 + 1 / 2\<rfloor>"
  shows "\<bar>of_nat n / 100 - 100 * r\<bar> \<le> 1 / 200 + 100 * r / 2 ^ 51"
proof -
  define q where "q = to_double r"
  define x where "x = to_double (q * 100)"
  have q0: "0 \<le> q"
    using assms(1) by (simp add: q_def to_double_nonneg)
  have x0: "0 \<le> x"
    using q0 by (simp add: x_def to_double_nonneg)
  have a: "\<bar>q - r\<bar> \<le> r / 2 ^ 53"
    using to_double_near [OF assms(1)] by (simp add: q_def)
  have b: "\<bar>x - q * 100\<bar> \<le> q * 100 / 2 ^ 53"
    using to_double_near [of "q * 100"] q0 by (simp add: x_def)
  have q2: "q \<le> 2 * r"
  proof -
    have "q \<le> r + r / 2 ^ 53"
      using a by linarith
    also have "\<dots> \<le> r + r"
      using assms(1) by (intro add_left_mono) (simp add: field_simps)
    finally show ?thesis by simp
  qed
  have c: "\<bar>x - 100 * r\<bar> \<le> 100 * r / 2 ^ 51"
  proof -
    have "x - 100 * r = (x - q * 100) + 100 * (q - r)"
      by simp
    then have "\<bar>x - 100 * r\<bar> \<le> \<bar>x - q * 100\<bar> + \<bar>100 * (q - r)\<bar>"
      using abs_triangle_ineq [of "x - q * 100" "100 * (q - r)"] by simp
    also have "\<bar>100 * (q - r)\<bar> = 100 * \<bar>q - r\<bar>"
      by (subst abs_mult) simp
    finally have "\<bar>x - 100 * r\<bar> \<le> \<bar>x - q * 100\<bar> + 100 * \<bar>q - r\<bar>" .
    also have "\<dots> \<le> q * 100 / 2 ^ 53 + 100 * (r / 2 ^ 53)"
      using a b by (intro add_mono mult_left_mono) auto
    also have "\<dots> \<le> (2 * r) * 100 / 2 ^ 53 + 100 * (r / 2 ^ 53)"
      using q2 by (intro add_right_mono divide_right_mono mult_right_mono) auto
    also have "\<dots> \<le> 100 * r / 2 ^ 51"
      using assms(1) by (simp add: field_simps)
    finally show ?thesis .
  qed
  define k where "k = \<lfloor>x * 100 + 1 / 2\<rfloor>"
  have n: "of_nat n = (of_int k :: rat)"
    using x0 by (simp add: n_def x_def q_def k_def)
  have "of_int k \<le> x * 100 + 1 / 2" "x * 100 + 1 / 2 < of_int k + 1"
    unfolding k_def by linarith+
  then have "of_int k / 100 - x \<le> 1 / 200" "x - of_int k / 100 \<le> 1 / 200"
    by linarith+
  then have d: "\<bar>of_nat n / 100 - x\<bar> \<le> 1 / 200"
    unfolding n by (intro abs_leI) linarith+
  have "\<bar>of_nat n / 100 - 100 * r\<bar> \<le> \<bar>of_nat n / 100 - x\<bar> + \<bar>x - 100 * r\<bar>"
    by simp
  then show ?thesis
    using c d by linarith
qed

text \<open>
  The double nearest to 23/160 is below it, and so is its product with 100: the text is
  14.37, where the exact quotient 14.375 would give 14.38.
\<close>

lemma double_rounding_example:
  "toFixed2 (js_times (js_div 23 160) 100) = ''14.37''"
  by code_simp


section \<open>The overall difference is weighted by pixels\<close>

lemma diffPage_Diffed:
  "(\<exists>f fs1. diffPage P B L t fs p = (Diffed d a f, fs1))
   \<longleftrightarrow> (\<exists>doc shot fileA imgA imgB diffData diffFile.
          B (url p) = Inr doc \<and> doc_screenshot doc = Inr shot
          \<and> baselineFile
               (fs(path_join t (createSafeFileName_ui P (url p) @ ''.png'') \<mapsto> shot)) p
              = Some fileA
          \<and> png_read L fileA = Inr imgA \<and> png_read L shot = Inr imgB
          \<and> pixelmatch L (data imgA) (data imgB) (width imgA) (height imgA)
              = Inr (d, diffData)
          \<and> png_write L \<lparr>width = width imgA, height = height imgA, data = diffData\<rparr>
              = Inr diffFile
          \<and> a = width imgA * height imgA)"
  by (auto simp: diffPage_def Let_def split: sum.splits option.splits prod.splits)

lemma comparePage_totals:
  "diffPage P B L t (disk s) p = (r, fs) \<Longrightarrow>
   totalDiffPixels (comparePage P B L t s p)
     = totalDiffPixels s + (case r of Diffed d a f \<Rightarrow> d | Thrown e \<Rightarrow> 0 | NoBaseline \<Rightarrow> 0)
   \<and> totalPixelsCompared (comparePage P B L t s p)
     = totalPixelsCompared s + (case r of Diffed d a f \<Rightarrow> a | Thrown e \<Rightarrow> 0 | NoBaseline \<Rightarrow> 0)
   \<and> successfulComparisons (comparePage P B L t s p)
     = successfulComparisons s
       + (case r of Diffed d a f \<Rightarrow> Suc 0 | Thrown e \<Rightarrow> 0 | NoBaseline \<Rightarrow> 0)"
  by (cases r) (simp_all add: comparePage_def caught_def Let_def)

lemma foldl_totals:
  "totalDiffPixels (foldl (comparePage P B L t) s ps)
     = totalDiffPixels s
       + sum_list (map (\<lambda>r. case r of Diffed d a f \<Rightarrow> d | Thrown e \<Rightarrow> 0 | NoBaseline \<Rightarrow> 0)
                       (outcomes P B L t (disk s) ps))
   \<and> totalPixelsCompared (foldl (comparePage P B L t) s ps)
     = totalPixelsCompared s
       + sum_list (map (\<lambda>r. case r of Diffed d a f \<Rightarrow> a | Thrown e \<Rightarrow> 0 | NoBaseline \<Rightarrow> 0)
                       (outcomes P B L t (disk s) ps))
   \<and> successfulComparisons (foldl (comparePage P B L t) s ps)
     = successfulComparisons s
       + sum_list (map (\<lambda>r. case r of Diffed d a f \<Rightarrow> Suc 0 | Thrown e \<Rightarrow> 0 | NoBaseline \<Rightarrow> 0)
                       (outcomes P B L t (disk s) ps))"
proof (induction ps arbitrary: s)
  case Nil
  then show ?case by simp
next
  case (Cons p ps)
  obtain r fs where d: "diffPage P B L t (disk s) p = (r, fs)"
    by (cases "diffPage P B L t (disk s) p")
  have k: "disk (comparePage P B L t s p) = fs"
    using d by (simp add: comparePage_disk)
  note st = comparePage_totals [OF d]
  note ih = Cons.IH [of "comparePage P B L t s p"]
  show ?case
    using st ih by (cases r) (simp_all add: d k)
qed

lemma no_Diffed_sum:
  "(\<forall>d a f. Diffed d a f \<notin> set rs) \<Longrightarrow>
   sum_list (map (\<lambda>r. case r of Diffed d a f \<Rightarrow> Suc 0 | Thrown e \<Rightarrow> 0 | NoBaseline \<Rightarrow> 0) rs)
   = 0"
  by (induction rs) (auto split: outcome.splits)

lemma area_sum_pos:
  "0 < sum_list (map (\<lambda>r. case r of Diffed d a f \<Rightarrow> a | Thrown e \<Rightarrow> 0 | NoBaseline \<Rightarrow> 0) rs)
   \<Longrightarrow>
   0 < sum_list (map (\<lambda>r. case r of Diffed d a f \<Rightarrow> Suc 0 | Thrown e \<Rightarrow> 0 | NoBaseline \<Rightarrow> 0)
                     rs)"
  by (induction rs) (auto split: outcome.splits)

text \<open>
  C2. A page of the comparison pass is successfully compared when it loads, is captured,
  its baseline file exists, both files decode, \<open>pixelmatch\<close> returns a count and the diff
  image is written; its count is what \<open>pixelmatch\<close> returned and its size is width times
  height of the baseline image. After the pass over the success records of the manifest,
  \<open>totalDiffPixels\<close> is the sum of the counts of the successfully compared pages and
  \<open>totalPixelsCompared\<close> the sum of their sizes; a page that threw or had no baseline adds
  nothing to either. When no page was compared the report says \<open>0.00\<close>. Otherwise, with
  both sums below \<open>2 ^ 53\<close>, the report prints a number of hundredths \<open>n\<close>, and \<open>n / 100\<close>
  is the quotient of the two sums as a percentage, up to the half hundredth of the
  printing and the two roundings of the doubles. It is not a mean of the pages' own
  ratios.
\<close>

theorem overall_difference_pixel_weighted:
  "(let rs = outcomes P B L tempFolder fs (filter (\<lambda>p. status p = Success) baselinePages);
        D = sum_list (map (\<lambda>r. case r of Diffed d a f \<Rightarrow> d | Thrown e \<Rightarrow> 0
                                   | NoBaseline \<Rightarrow> 0) rs);
        A = sum_list (map (\<lambda>r. case r of Diffed d a f \<Rightarrow> a | Thrown e \<Rightarrow> 0
                                   | NoBaseline \<Rightarrow> 0) rs);
        s = compareLoop P B L tempFolder fs baselinePages
    in (\<forall>fs0 p d a.
          (\<exists>f fs1. diffPage P B L tempFolder fs0 p = (Diffed d a f, fs1))
          \<longleftrightarrow> (\<exists>doc shot fileA imgA imgB diffData diffFile.
                 B (url p) = Inr doc \<and> doc_screenshot doc = Inr shot
                 \<and> baselineFile
                      (fs0(path_join tempFolder (createSafeFileName_ui P (url p) @ ''.png'')
                         \<mapsto> shot)) p
                     = Some fileA
                 \<and> png_read L fileA = Inr imgA \<and> png_read L shot = Inr imgB
                 \<and> pixelmatch L (data imgA) (data imgB) (width imgA) (height imgA)
                     = Inr (d, diffData)
                 \<and> png_write L \<lparr>width = width imgA, height = height imgA, data = diffData\<rparr>
                     = Inr diffFile
                 \<and> a = width imgA * height imgA))
       \<and> totalDiffPixels s = D
       \<and> totalPixelsCompared s = A
       \<and> ((\<forall>d a f. Diffed d a f \<notin> set rs) \<longrightarrow> overallDiffPercentage s = ''0.00'')
       \<and> (0 < A \<and> A < 2 ^ 53 \<and> D < 2 ^ 53 \<longrightarrow>
            (\<exists>n. overallDiffPercentage s
                   = show_nat (n div 100) @ ''.'' @ [digit (n mod 100 div 10), digit (n mod 10)]
                 \<and> \<bar>of_nat n / 100 - 100 * (of_nat D / of_nat A :: rat)\<bar>
                     \<le> 1 / 200 + 100 * (of_nat D / of_nat A) / 2 ^ 51)))"
proof -
  define rs where
    "rs = outcomes P B L tempFolder fs (filter (\<lambda>p. status p = Success) baselinePages)"
  define D where
    "D = sum_list (map (\<lambda>r. case r of Diffed d a f \<Rightarrow> d | Thrown e \<Rightarrow> 0 | NoBaseline \<Rightarrow> 0) rs)"
  define A where
    "A = sum_list (map (\<lambda>r. case r of Diffed d a f \<Rightarrow> a | Thrown e \<Rightarrow> 0 | NoBaseline \<Rightarrow> 0) rs)"
  define C where
    "C = sum_list (map (\<lambda>r. case r of Diffed d a f \<Rightarrow> Suc 0 | Thrown e \<Rightarrow> 0
                             | NoBaseline \<Rightarrow> 0) rs)"
  define s where "s = compareLoop P B L tempFolder fs baselinePages"
  have t: "totalDiffPixels s = D" "totalPixelsCompared s = A" "successfulComparisons s = C"
    using foldl_totals [of P B L tempFolder "compare_init fs" "successPages baselinePages"]
    by (simp_all add: s_def D_def A_def C_def rs_def compareLoop_def compare_init_def
                      successPages_def)
  have z: "overallDiffPercentage s = ''0.00''" if "\<forall>d a f. Diffed d a f \<notin> set rs"
  proof -
    have "C = 0"
      unfolding C_def by (rule no_Diffed_sum [OF that])
    then have "successfulComparisons s = 0"
      using t(3) by simp
    then show ?thesis
      by (simp add: overallDiffPercentage_def)
  qed
  have b: "\<exists>n. overallDiffPercentage s
                 = show_nat (n div 100) @ ''.'' @ [digit (n mod 100 div 10), digit (n mod 10)]
               \<and> \<bar>of_nat n / 100 - 100 * (of_nat D / of_nat A :: rat)\<bar>
                   \<le> 1 / 200 + 100 * (of_nat D / of_nat A) / 2 ^ 51"
    if "0 < A"
  proof -
    define n where
      "n = nat \<lfloor>to_double (to_double (of_nat D / of_nat A) * 100) * 100 + 1 / 2\<rfloor>"
    have "0 < C"
      unfolding C_def by (rule area_sum_pos) (use that in \<open>simp add: A_def\<close>)
    then have "overallDiffPercentage s
                 = show_nat (n div 100) @ ''.'' @ [digit (n mod 100 div 10), digit (n mod 10)]"
      using that t
      by (simp add: overallDiffPercentage_def js_div_def js_times_def toFixed2_def n_def Let_def)
    moreover have "\<bar>of_nat n / 100 - 100 * (of_nat D / of_nat A :: rat)\<bar>
                     \<le> 1 / 200 + 100 * (of_nat D / of_nat A) / 2 ^ 51"
      unfolding n_def by (rule hundredths_near) simp
    ultimately show ?thesis
      by blast
  qed
  show ?thesis
    using t(1,2) z b diffPage_Diffed [of P B L tempFolder]
    unfolding Let_def rs_def [symmetric] D_def [symmetric] A_def [symmetric] s_def [symmetric]
    by blast
qed

theorem overall_difference_pixel_weighted_witness:
  "outcomes plain_URL two_page_site example_lib ''tmp'' two_page_files
     (filter (\<lambda>p. status p = Success) two_page_baseline)
     = [Diffed 1 1 ''tmp/h.com_diff.png'', Diffed 0 3 ''tmp/h.com_a_diff.png'']
   \<and> totalDiffPixels (compareLoop plain_URL two_page_site example_lib ''tmp'' two_page_files
                        two_page_baseline) = 1
   \<and> totalPixelsCompared (compareLoop plain_URL two_page_site example_lib ''tmp''
                        two_page_files two_page_baseline) = 4
   \<and> (\<exists>n. overallDiffPercentage (compareLoop plain_URL two_page_site example_lib ''tmp''
                                    two_page_files two_page_baseline)
             = show_nat (n div 100) @ ''.'' @ [digit (n mod 100 div 10), digit (n mod 10)]
           \<and> \<bar>of_nat n / 100 - 100 * (1 / 4 :: rat)\<bar> \<le> 1 / 200 + 100 * (1 / 4) / 2 ^ 51)"
proof -
  have f: "filter (\<lambda>p. status p = Success) two_page_baseline = two_page_baseline"
    by (simp add: two_page_baseline_def success_page_def)
  have o: "outcomes plain_URL two_page_site example_lib ''tmp'' two_page_files
             two_page_baseline
           = [Diffed 1 1 ''tmp/h.com_diff.png'', Diffed 0 3 ''tmp/h.com_a_diff.png'']"
    by code_simp
  show ?thesis
    using overall_difference_pixel_weighted
      [of plain_URL two_page_site example_lib "''tmp''" two_page_files two_page_baseline]
    unfolding Let_def f o by simp
qed

text \<open>
  An example: the home page, one pixel, has changed in full, and a page of three pixels has
  not changed. One pixel of four differs, and the report says 25.00 percent; the mean of
  the two pages' own ratios would be 50.
\<close>

lemma overall_difference_example:
  "outcomes plain_URL two_page_site example_lib ''tmp'' two_page_files two_page_baseline
     = [Diffed 1 1 ''tmp/h.com_diff.png'', Diffed 0 3 ''tmp/h.com_a_diff.png'']
   \<and> overallDiffPercentage (compareLoop plain_URL two_page_site example_lib ''tmp''
                              two_page_files two_page_baseline)
     = ''25.00''"
proof -
  have s: "successPages two_page_baseline = two_page_baseline"
    by (simp add: successPages_def two_page_baseline_def success_page_def)
  have o: "outcomes plain_URL two_page_site example_lib ''tmp'' two_page_files
             two_page_baseline
           = [Diffed 1 1 ''tmp/h.com_diff.png'', Diffed 0 3 ''tmp/h.com_a_diff.png'']"
    by code_simp
  have f: "toFixed2 (js_times (js_div 1 4) 100) = ''25.00''"
    by code_simp
  have "overallDiffPercentage (compareLoop plain_URL two_page_site example_lib ''tmp''
                                two_page_files two_page_baseline)
        = toFixed2 (js_times (js_div 1 4) 100)"
    using foldl_totals [of plain_URL two_page_site example_lib "''tmp''"
                           "compare_init two_page_files" two_page_baseline]
    by (simp add: compareLoop_def compare_init_def overallDiffPercentage_def s o)
  then show ?thesis
    using o f by simp
qed


section \<open>\<open>normalizeUrl\<close> on concrete links\<close>

text \<open>
  C5. Two links that differ in the fragment only should normalise to the same string.
  For a link that starts with a slash \<open>normalizeUrl\<close> returns before it reaches the
  removal of the fragment: on the page \<open>https://h.com/\<close> the links \<open>/a#x\<close> and \<open>/a\<close>
  give two different strings. The page reporter does not normalise links; it drops those
  that end in \<open>#\<close>, and navigates to \<open>https://h.com/a#x\<close> and to \<open>https://h.com/a\<close>.
\<close>

theorem normalizeUrl_keeps_fragment_of_rooted_link:
  "normalizeUrl plain_URL ''/a#x'' ''https://h.com/'' = Some ''https://h.com/a#x''
   \<and> normalizeUrl plain_URL ''/a'' ''https://h.com/'' = Some ''https://h.com/a''
   \<and> map_sum id goto_log
         (report_iter 4 plain_URL fragment_site ''h.com'' None (report_init ''https://h.com/''))
       = Inr [''https://h.com/'', ''https://h.com/a#x'', ''https://h.com/a'']"
  by code_simp

text \<open>
  C6. A link whose scheme is neither http nor https should be rejected. \<open>normalizeUrl\<close>
  tests three prefixes only, and the link \<open>ftp://h.com/a\<close> is returned as it is.
\<close>

theorem normalizeUrl_returns_ftp_link:
  "normalizeUrl plain_URL ''ftp://h.com/a'' ''https://h.com/'' = Some ''ftp://h.com/a''"
  by code_simp

text \<open>
  C7. Normalising a normalised URL should return it unchanged. The result for the link
  \<open>/a#x\<close> still has its fragment, and normalising that result removes it.
\<close>

theorem normalizeUrl_twice_differs:
  "normalizeUrl plain_URL ''/a#x'' ''https://h.com/'' = Some ''https://h.com/a#x''
   \<and> normalizeUrl plain_URL ''https://h.com/a#x'' ''https://h.com/''
       = Some ''https://h.com/a''"
  by code_simp


section \<open>A baseline whose snapshot was overwritten\<close>

text \<open>
  C9. Every record of the saved manifest should lead to the image that was captured for
  its page. On a site whose home page links to \<open>/p?id=1\<close> and \<open>/p?id=2\<close> the crawl ends
  after three pages and writes three records; the two query pages get the same file name,
  since the name is made of host and path only, and the file the record of \<open>/p?id=1\<close>
  points to holds the white image captured for \<open>/p?id=2\<close>, not the black one captured
  for \<open>/p?id=1\<close>.
\<close>

theorem baseline_snapshot_overwritten:
  "(case crawlAndScreenshot 4 plain_URL query_site Map.empty ''baseline/h.com-T''
           ''https://h.com/'' of
      Some (Inr s) \<Rightarrow>
        (case pagesJson s of
           Some ps \<Rightarrow>
             map url ps = [''https://h.com/'', ''https://h.com/p?id=1'', ''https://h.com/p?id=2'']
             \<and> map screenshotPath ps
                 = [Some ''baseline/h.com-T/h.com.png'', Some ''baseline/h.com-T/h.com_p.png'',
                    Some ''baseline/h.com-T/h.com_p.png'']
         | None \<Rightarrow> False)
        \<and> files s ''baseline/h.com-T/h.com_p.png'' = Some (1 # 1 # white)
    | _ \<Rightarrow> False)
   \<and> query_site ''https://h.com/p?id=1'' = Inr (page_of ''One'' (1 # 1 # black) [])
   \<and> black \<noteq> white"
  by code_simp

section \<open>Snapshot file names are safe\<close>

lemma collapse_hd: "collapse_underscores s \<noteq> [] \<Longrightarrow> hd (collapse_underscores s) = hd s"
  by (induction s rule: collapse_underscores.induct) auto

lemma collapse_nil: "collapse_underscores s = [] \<longleftrightarrow> s = []"
  by (induction s rule: collapse_underscores.induct) auto

lemma collapse_no_run: "\<not> has_run (collapse_underscores s)"
proof (induction s rule: collapse_underscores.induct)
  case (1 a b s)
  then show ?case
    using collapse_hd [of "b # s"] collapse_nil [of "b # s"]
    by (cases "collapse_underscores (b # s)") auto
qed simp_all

lemma collapse_set: "set (collapse_underscores s) \<subseteq> set s"
  by (induction s rule: collapse_underscores.induct) auto

lemma has_run_Cons:
  "has_run (a # s) \<longleftrightarrow> (s \<noteq> [] \<and> a = CHR ''_'' \<and> hd s = CHR ''_'') \<or> has_run s"
  by (cases s) auto

lemma has_run_butlast: "\<not> has_run s \<Longrightarrow> \<not> has_run (butlast s)"
proof (induction s)
  case (Cons a s)
  then show ?case
    by (cases s) (auto simp: has_run_Cons split: if_splits)
qed simp

lemma has_run_take: "\<not> has_run s \<Longrightarrow> \<not> has_run (take n s)"
proof (induction s arbitrary: n)
  case (Cons a s)
  show ?case
  proof (cases n)
    case (Suc m)
    have "\<not> has_run (take m s)"
      using Cons by (simp add: has_run_Cons)
    then show ?thesis
      using Cons.prems Suc by (cases s; cases m) (auto simp: has_run_Cons)
  qed simp
qed simp

lemma strip_leading_props:
  "\<not> has_run s \<Longrightarrow>
   \<not> has_run (strip_leading s) \<and> (strip_leading s = [] \<or> hd (strip_leading s) \<noteq> CHR ''_'')"
  by (cases s) (auto simp: strip_leading_def has_run_Cons)

lemma strip_trailing_props:
  "\<not> has_run s \<Longrightarrow> s = [] \<or> hd s \<noteq> CHR ''_'' \<Longrightarrow>
   \<not> has_run (strip_trailing s) \<and> trimmed (strip_trailing s)"
proof (induction s rule: rev_induct)
  case (snoc x xs)
  have nr: "\<not> has_run xs"
    using snoc.prems(1) has_run_butlast [of "xs @ [x]"] by simp
  have l: "xs \<noteq> [] \<Longrightarrow> x = CHR ''_'' \<Longrightarrow> last xs \<noteq> CHR ''_''"
    using snoc.prems(1)
  proof (induction xs)
    case (Cons a ys)
    then show ?case by (cases ys) (auto simp: has_run_Cons)
  qed simp
  show ?case
    using snoc.prems nr l by (cases xs) (auto simp: strip_trailing_def trimmed_def)
qed (simp add: strip_trailing_def trimmed_def)

lemma trim_props:
  "\<not> has_run s \<Longrightarrow> \<not> has_run (trim_underscore s) \<and> trimmed (trim_underscore s)"
  using strip_leading_props [of s] strip_trailing_props [of "strip_leading s"]
  by (auto simp: trim_underscore_def)

lemma trim_set: "set (trim_underscore s) \<subseteq> set s"
proof -
  have a: "set (strip_leading s) \<subseteq> set s"
    by (cases s) (auto simp: strip_leading_def)
  have b: "set (strip_trailing t) \<subseteq> set t" for t
    by (auto simp: strip_trailing_def dest: in_set_butlastD)
  show ?thesis
    using a b [of "strip_leading s"] by (auto simp: trim_underscore_def)
qed

lemma replace_set: "c \<in> set (replace_outside keep s) \<Longrightarrow> keep c \<or> c = CHR ''_''"
  by (auto simp: replace_outside_def split: if_splits)

lemma safeName_props:
  "safeName s \<noteq> [] \<and> length (safeName s) \<le> 100
   \<and> (\<forall>c \<in> set (safeName s). is_alnum c \<or> c = CHR ''_'')
   \<and> \<not> has_run (safeName s) \<and> hd (safeName s) \<noteq> CHR ''_''"
proof -
  define t where "t = trim_underscore (collapse_underscores (replace_outside is_alnum s))"
  have sn: "safeName s = or_else (take 100 t) ''homepage''"
    by (simp add: safeName_def t_def Let_def)
  have nr: "\<not> has_run t" and tr: "trimmed t"
    using trim_props [OF collapse_no_run] by (simp_all add: t_def)
  have cs: "\<forall>c \<in> set t. is_alnum c \<or> c = CHR ''_''"
    using trim_set collapse_set replace_set unfolding t_def by blast
  have ph: "\<forall>c \<in> set ''homepage''. is_alnum c"
    by (simp add: is_alnum_def)
  show ?thesis
  proof (cases "take 100 t = []")
    case True
    then have "safeName s = ''homepage''" by (simp add: sn or_else_def)
    then show ?thesis using ph by simp
  next
    case False
    then have e: "safeName s = take 100 t" by (simp add: sn or_else_def)
    have "hd (take 100 t) = hd t" using False by (cases t) auto
    moreover have "hd t \<noteq> CHR ''_''" using tr False by (auto simp: trimmed_def)
    moreover have "\<forall>c \<in> set (take 100 t). is_alnum c \<or> c = CHR ''_''"
      using cs by (auto dest: in_set_takeD)
    ultimately show ?thesis using False has_run_take [OF nr, of 100] by (simp add: e)
  qed
qed

lemma safeName_ui_props:
  "safeName_ui s \<noteq> []
   \<and> (\<forall>c \<in> set (safeName_ui s). is_alnum_dot_dash c \<or> c = CHR ''_'')
   \<and> \<not> has_run (safeName_ui s) \<and> trimmed (safeName_ui s)"
proof -
  define t where
    "t = trim_underscore (collapse_underscores (replace_outside is_alnum_dot_dash s))"
  have sn: "safeName_ui s = or_else t ''index''"
    by (simp add: safeName_ui_def t_def Let_def)
  have nr: "\<not> has_run t" and tr: "trimmed t"
    using trim_props [OF collapse_no_run] by (simp_all add: t_def)
  have cs: "\<forall>c \<in> set t. is_alnum_dot_dash c \<or> c = CHR ''_''"
    using trim_set collapse_set replace_set unfolding t_def by blast
  have ph: "\<forall>c \<in> set ''index''. is_alnum_dot_dash c"
    by (simp add: is_alnum_def is_alnum_dot_dash_def)
  show ?thesis
  proof (cases "t = []")
    case True
    then have "safeName_ui s = ''index''" by (simp add: sn or_else_def)
    then show ?thesis using ph by (simp add: trimmed_def)
  next
    case False
    then have "safeName_ui s = t" by (simp add: sn or_else_def)
    then show ?thesis using False nr tr cs by simp
  qed
qed

text \<open>
  C8, as amended. The file name of a snapshot is a function of the URL's host name
  followed by its path, or \<open>invalid_url\<close> when the URL does not parse. In the page
  reporter every character outside \<open>[a-zA-Z0-9]\<close> becomes an underscore, runs of
  underscores collapse, one underscore is trimmed at each end, the name is cut to 100
  characters and an empty name becomes \<open>homepage\<close>: the name is not empty, has at most 100
  characters, all of them letters, digits or underscores, no two underscores in a row and
  no underscore in front. In the UI tester dots and hyphens are kept as well, the name is
  not cut and an empty name becomes \<open>index\<close>: the name is not empty, its characters are
  letters, digits, dots, hyphens or underscores, with no two underscores in a row and no
  underscore at either end.
\<close>

theorem safe_file_names:
  "(case P u None of
      None \<Rightarrow> createSafeFileName P u = ''invalid_url''
              \<and> createSafeFileName_ui P u = ''invalid_url''
    | Some urlObj \<Rightarrow>
        createSafeFileName P u
          = or_else (take 100 (trim_underscore (collapse_underscores
              (replace_outside is_alnum (hostname urlObj @ pathname urlObj))))) ''homepage''
        \<and> createSafeFileName_ui P u
          = or_else (trim_underscore (collapse_underscores
              (replace_outside is_alnum_dot_dash (hostname urlObj @ pathname urlObj)))) ''index''
        \<and> createSafeFileName P u \<noteq> [] \<and> length (createSafeFileName P u) \<le> 100
        \<and> (\<forall>c \<in> set (createSafeFileName P u). is_alnum c \<or> c = CHR ''_'')
        \<and> \<not> has_run (createSafeFileName P u) \<and> hd (createSafeFileName P u) \<noteq> CHR ''_''
        \<and> createSafeFileName_ui P u \<noteq> []
        \<and> (\<forall>c \<in> set (createSafeFileName_ui P u). is_alnum_dot_dash c \<or> c = CHR ''_'')
        \<and> \<not> has_run (createSafeFileName_ui P u) \<and> trimmed (createSafeFileName_ui P u))"
proof (cases "P u None")
  case None
  then show ?thesis
    by (simp add: createSafeFileName_def createSafeFileName_ui_def)
next
  case (Some urlObj)
  have a: "createSafeFileName P u = safeName (hostname urlObj @ pathname urlObj)"
    using Some by (simp add: createSafeFileName_def)
  have b: "createSafeFileName_ui P u = safeName_ui (hostname urlObj @ pathname urlObj)"
    using Some by (simp add: createSafeFileName_ui_def)
  have c: "safeName s = or_else (take 100 (trim_underscore (collapse_underscores
             (replace_outside is_alnum s)))) ''homepage''" for s
    by (simp add: safeName_def Let_def)
  have d: "safeName_ui s = or_else (trim_underscore (collapse_underscores
             (replace_outside is_alnum_dot_dash s))) ''index''" for s
    by (simp add: safeName_ui_def Let_def)
  show ?thesis
    using safeName_props [of "hostname urlObj @ pathname urlObj"]
      safeName_ui_props [of "hostname urlObj @ pathname urlObj"]
      c [of "hostname urlObj @ pathname urlObj"] d [of "hostname urlObj @ pathname urlObj"]
    unfolding Some a b by simp
qed

theorem safe_file_names_witness:
  "createSafeFileName plain_URL ''https://a.b/x/y_z/'' = ''a_b_x_y_z''
   \<and> createSafeFileName_ui plain_URL ''https://a.b/x/y_z/'' = ''a.b_x_y_z''
   \<and> length (createSafeFileName plain_URL ''https://a.b/x/y_z/'') \<le> 100
   \<and> \<not> has_run (createSafeFileName plain_URL ''https://a.b/x/y_z/'')
   \<and> trimmed (createSafeFileName_ui plain_URL ''https://a.b/x/y_z/'')"
proof -
  have p: "plain_URL ''https://a.b/x/y_z/'' None
           = Some \<lparr>url_scheme = ''https'', url_username = [], url_password = [],
                   url_host_name = Some ''a.b'', url_port = None, url_path = ''/x/y_z/'',
                   url_query = None, url_fragment = None\<rparr>"
    by code_simp
  have v: "createSafeFileName plain_URL ''https://a.b/x/y_z/'' = ''a_b_x_y_z''"
    by code_simp
  have w: "createSafeFileName_ui plain_URL ''https://a.b/x/y_z/'' = ''a.b_x_y_z''"
    by code_simp
  have t: "length (createSafeFileName plain_URL ''https://a.b/x/y_z/'') \<le> 100
           \<and> \<not> has_run (createSafeFileName plain_URL ''https://a.b/x/y_z/'')
           \<and> trimmed (createSafeFileName_ui plain_URL ''https://a.b/x/y_z/'')"
    using safe_file_names [of plain_URL "''https://a.b/x/y_z/''"]
    unfolding p option.case by blast
  show ?thesis
    using t v w by simp
qed

text \<open>
  C8, as stated, fails for the file names of the UI tester: the dot of the host name is
  kept, and a name of 124 characters is not cut.
\<close>

theorem safe_file_name_ui_keeps_dot_and_length:
  "createSafeFileName_ui plain_URL ''https://a.b/x'' = ''a.b_x''
   \<and> \<not> is_alnum CHR ''.''
   \<and> length (createSafeFileName_ui plain_URL (''https://a.b/'' @ replicate 120 CHR ''a'')) = 124"
  by code_simp

section \<open>Errors of the comparison pass\<close>

lemma comparePage_error_step:
  assumes "fst (diffPage P B L t (disk s) p) = NoBaseline
           \<or> (\<exists>e. fst (diffPage P B L t (disk s) p) = Thrown e)"
  shows "errorCount (comparePage P B L t s p) = errorCount s + 1
     \<and> matchCount (comparePage P B L t s p) = matchCount s
     \<and> changeCount (comparePage P B L t s p) = changeCount s
     \<and> changedPages (comparePage P B L t s p) = changedPages s
     \<and> unchangedPages (comparePage P B L t s p) = unchangedPages s
     \<and> totalDiffPixels (comparePage P B L t s p) = totalDiffPixels s
     \<and> totalPixelsCompared (comparePage P B L t s p) = totalPixelsCompared s
     \<and> (\<exists>e. errorPages (comparePage P B L t s p) = errorPages s @ [(url p, e)])"
  using assms
  by (cases "diffPage P B L t (disk s) p") (auto simp: comparePage_def caught_def Let_def)

lemma comparePage_js_error_step:
  assumes "fst (diffPage P B L t (disk_js s) p) = NoBaseline
           \<or> (\<exists>e. fst (diffPage P B L t (disk_js s) p) = Thrown e)"
  shows "matchCount_js (comparePage_js P B L t s p) = matchCount_js s
     \<and> changeCount_js (comparePage_js P B L t s p) = changeCount_js s
     \<and> changedPages_js (comparePage_js P B L t s p) = changedPages_js s
     \<and> (\<exists>m. console_js (comparePage_js P B L t s p) = console_js s @ [m])"
  using assms
  by (cases "diffPage P B L t (disk_js s) p") (auto simp: comparePage_js_def logged_def Let_def)

lemma diffPage_rejected:
  assumes "B (url p) = Inr doc" and "doc_screenshot doc = Inr shot"
    and "baselineFile
           (fs(path_join t (createSafeFileName_ui P (url p) @ ''.png'') \<mapsto> shot)) p
         = Some fileA"
    and "png_read L fileA = Inr imgA" and "png_read L shot = Inr imgB"
    and "pixelmatch L (data imgA) (data imgB) (width imgA) (height imgA) = Inl e"
  shows "fst (diffPage P B L t fs p) = Thrown e"
  using assms by (simp add: diffPage_def Let_def)

lemma pixelmatch_error_is_errored:
  assumes "B (url p) = Inr doc" and "doc_screenshot doc = Inr shot"
    and "baselineFile
           (fs(path_join tempFolder (createSafeFileName_ui P (url p) @ ''.png'') \<mapsto> shot)) p
         = Some fileA"
    and "png_read L fileA = Inr imgA" and "png_read L shot = Inr imgB"
    and "pixelmatch L (data imgA) (data imgB) (width imgA) (height imgA) = Inl e"
    and "disk s = fs" and "disk_js sj = fs"
  shows "errorCount (comparePage P B L tempFolder s p) = errorCount s + 1
     \<and> errorPages (comparePage P B L tempFolder s p) = errorPages s @ [(url p, e)]
     \<and> matchCount (comparePage P B L tempFolder s p) = matchCount s
     \<and> changeCount (comparePage P B L tempFolder s p) = changeCount s
     \<and> changedPages (comparePage P B L tempFolder s p) = changedPages s
     \<and> unchangedPages (comparePage P B L tempFolder s p) = unchangedPages s
     \<and> totalDiffPixels (comparePage P B L tempFolder s p) = totalDiffPixels s
     \<and> totalPixelsCompared (comparePage P B L tempFolder s p) = totalPixelsCompared s
     \<and> matchCount_js (comparePage_js P B L tempFolder sj p) = matchCount_js sj
     \<and> changeCount_js (comparePage_js P B L tempFolder sj p) = changeCount_js sj
     \<and> changedPages_js (comparePage_js P B L tempFolder sj p) = changedPages_js sj
     \<and> console_js (comparePage_js P B L tempFolder sj p)
         = console_js sj @ [''Error comparing '' @ url p @ '': '' @ e]"
proof -
  have d: "fst (diffPage P B L tempFolder fs p) = Thrown e"
    using assms(1-6) by (rule diffPage_rejected)
  have a: "errorCount (comparePage P B L tempFolder s p) = errorCount s + 1
     \<and> errorPages (comparePage P B L tempFolder s p) = errorPages s @ [(url p, e)]
     \<and> matchCount (comparePage P B L tempFolder s p) = matchCount s
     \<and> changeCount (comparePage P B L tempFolder s p) = changeCount s
     \<and> changedPages (comparePage P B L tempFolder s p) = changedPages s
     \<and> unchangedPages (comparePage P B L tempFolder s p) = unchangedPages s
     \<and> totalDiffPixels (comparePage P B L tempFolder s p) = totalDiffPixels s
     \<and> totalPixelsCompared (comparePage P B L tempFolder s p) = totalPixelsCompared s"
    using d assms(7)
    by (cases "diffPage P B L tempFolder fs p") (simp add: comparePage_def caught_def Let_def)
  have b: "matchCount_js (comparePage_js P B L tempFolder sj p) = matchCount_js sj
     \<and> changeCount_js (comparePage_js P B L tempFolder sj p) = changeCount_js sj
     \<and> changedPages_js (comparePage_js P B L tempFolder sj p) = changedPages_js sj
     \<and> console_js (comparePage_js P B L tempFolder sj p)
         = console_js sj @ [''Error comparing '' @ url p @ '': '' @ e]"
    using d assms(8)
    by (cases "diffPage P B L tempFolder fs p") (simp add: comparePage_js_def logged_def Let_def)
  show ?thesis
    using a b by blast
qed

text \<open>
  C3, as amended. The comparison pass makes no test of the dimensions itself: it hands
  \<open>pixelmatch\<close> the data of both images with the width and height of the baseline image,
  and \<open>pixelmatch\<close> throws when the two data buffers differ in length. A decoded image has
  four bytes of data for each pixel. So when the page loads, is captured, both files
  decode, and the baseline image and the new image differ in width times height, as they
  do when they differ in width alone or in height alone, the second script classifies the
  page as errored: the error counter goes up by one, the page is listed with the message
  of the error, it is counted neither as matched nor as changed and it adds nothing to
  the two pixel totals. The script \<open>ui-tester.js\<close> has no such class: it counts the page
  neither as matched nor as changed and writes one line to the console.
\<close>

theorem images_of_different_size_are_errored:
  assumes "B (url p) = Inr doc" and "doc_screenshot doc = Inr shot"
    and "baselineFile
           (fs(path_join tempFolder (createSafeFileName_ui P (url p) @ ''.png'') \<mapsto> shot)) p
         = Some fileA"
    and "png_read L fileA = Inr imgA" and "png_read L shot = Inr imgB"
    and "length (data imgA) = 4 * (width imgA * height imgA)"
    and "length (data imgB) = 4 * (width imgB * height imgB)"
    and "\<forall>a b w h. length a \<noteq> length b \<longrightarrow> (\<exists>e. pixelmatch L a b w h = Inl e)"
    and "width imgA * height imgA \<noteq> width imgB * height imgB"
    and "disk s = fs" and "disk_js sj = fs"
  shows "errorCount (comparePage P B L tempFolder s p) = errorCount s + 1
     \<and> (\<exists>e. errorPages (comparePage P B L tempFolder s p) = errorPages s @ [(url p, e)])
     \<and> matchCount (comparePage P B L tempFolder s p) = matchCount s
     \<and> changeCount (comparePage P B L tempFolder s p) = changeCount s
     \<and> changedPages (comparePage P B L tempFolder s p) = changedPages s
     \<and> unchangedPages (comparePage P B L tempFolder s p) = unchangedPages s
     \<and> totalDiffPixels (comparePage P B L tempFolder s p) = totalDiffPixels s
     \<and> totalPixelsCompared (comparePage P B L tempFolder s p) = totalPixelsCompared s
     \<and> matchCount_js (comparePage_js P B L tempFolder sj p) = matchCount_js sj
     \<and> changeCount_js (comparePage_js P B L tempFolder sj p) = changeCount_js sj
     \<and> changedPages_js (comparePage_js P B L tempFolder sj p) = changedPages_js sj
     \<and> (\<exists>e. console_js (comparePage_js P B L tempFolder sj p)
               = console_js sj @ [''Error comparing '' @ url p @ '': '' @ e])"
proof -
  have "length (data imgA) \<noteq> length (data imgB)"
    using assms(6,7,9) by simp
  then obtain e where
    e: "pixelmatch L (data imgA) (data imgB) (width imgA) (height imgA) = Inl e"
    using assms(8) by blast
  note r = pixelmatch_error_is_errored
    [where B = B and p = p and P = P and L = L and tempFolder = tempFolder and fs = fs
       and s = s and sj = sj and doc = doc and shot = shot and fileA = fileA
       and imgA = imgA and imgB = imgB and e = e]
  show ?thesis
    using r [OF assms(1-5) e assms(10,11)] by blast
qed

theorem images_of_different_size_are_errored_witness:
  "width \<lparr>width = 1, height = 1, data = black\<rparr> * height \<lparr>width = 1, height = 1, data = black\<rparr>
     \<noteq> width \<lparr>width = 1, height = 2, data = black @ black\<rparr>
        * height \<lparr>width = 1, height = 2, data = black @ black\<rparr>
   \<and> errorCount (comparePage plain_URL (home_site tall) example_lib ''tmp''
                    (compare_init [''base/h.com.png'' \<mapsto> dot]) home_record) = 1
   \<and> matchCount (comparePage plain_URL (home_site tall) example_lib ''tmp''
                    (compare_init [''base/h.com.png'' \<mapsto> dot]) home_record) = 0
   \<and> changeCount (comparePage plain_URL (home_site tall) example_lib ''tmp''
                    (compare_init [''base/h.com.png'' \<mapsto> dot]) home_record) = 0
   \<and> totalPixelsCompared (comparePage plain_URL (home_site tall) example_lib ''tmp''
                    (compare_init [''base/h.com.png'' \<mapsto> dot]) home_record) = 0"
proof -
  let ?fs = "[''base/h.com.png'' \<mapsto> dot]"
  let ?sj = "\<lparr>matchCount_js = 0, changeCount_js = 0, changedPages_js = [], console_js = [],
              disk_js = ?fs\<rparr>"
  let ?A = "\<lparr>width = 1, height = 1, data = black\<rparr>"
  let ?B = "\<lparr>width = 1, height = 2, data = black @ black\<rparr>"
  have h1: "home_site tall (url home_record) = Inr (page_of ''Home'' tall [])"
    by code_simp
  have h2: "doc_screenshot (page_of ''Home'' tall []) = Inr tall"
    by (simp add: page_of_def)
  have h3: "baselineFile
              (?fs(path_join ''tmp'' (createSafeFileName_ui plain_URL (url home_record) @ ''.png'')
                 \<mapsto> tall)) home_record = Some dot"
    by code_simp
  have h4: "png_read example_lib dot = Inr ?A"
    by code_simp
  have h5: "png_read example_lib tall = Inr ?B"
    by code_simp
  have h6: "length (data ?A) = 4 * (width ?A * height ?A)"
    by (simp add: black_def)
  have h7: "length (data ?B) = 4 * (width ?B * height ?B)"
    by (simp add: black_def)
  have h8: "\<forall>a b w h. length a \<noteq> length b
              \<longrightarrow> (\<exists>e. pixelmatch example_lib a b w h = Inl e)"
    by (simp add: example_lib_def exact_pixelmatch_def)
  have h9: "width ?A * height ?A \<noteq> width ?B * height ?B"
    by simp
  have h10: "disk (compare_init ?fs) = ?fs"
    by (simp add: compare_init_def)
  have h11: "disk_js ?sj = ?fs"
    by simp
  show ?thesis
    using images_of_different_size_are_errored
      [where B = "home_site tall" and p = home_record and P = plain_URL
         and L = example_lib and tempFolder = "''tmp''" and fs = ?fs
         and s = "compare_init ?fs" and sj = ?sj and imgA = ?A and imgB = ?B,
       OF h1 h2 h3 h4 h5 h6 h7 h8 h9 h10 h11]
    by (simp add: compare_init_def)
qed

text \<open>
  C3, as stated, fails: a baseline image one pixel wide and two high and a new image two
  wide and one high have different dimensions and the same number of pixels, and the page
  is counted as matched.
\<close>

theorem transposed_image_is_matched:
  "raw_read tall = Inr \<lparr>width = 1, height = 2, data = black @ black\<rparr>
   \<and> raw_read wide = Inr \<lparr>width = 2, height = 1, data = black @ black\<rparr>
   \<and> matchCount (compareLoop plain_URL (home_site wide) example_lib ''tmp''
                   [''base/h.com.png'' \<mapsto> tall] [home_record]) = 1
   \<and> errorCount (compareLoop plain_URL (home_site wide) example_lib ''tmp''
                   [''base/h.com.png'' \<mapsto> tall] [home_record]) = 0
   \<and> unchangedPages (compareLoop plain_URL (home_site wide) example_lib ''tmp''
                   [''base/h.com.png'' \<mapsto> tall] [home_record])
       = [(''https://h.com/'', Some ''T'', ''0.00'')]"
  by code_simp

section \<open>A missing baseline image\<close>

lemma diffPage_disk:
  "diffPage P B L t fs p = (r, fs') \<Longrightarrow> fs' x \<noteq> fs x \<Longrightarrow> \<exists>name. x = path_join t name"
  by (auto simp: diffPage_def Let_def split: sum.splits option.splits prod.splits if_splits)

lemma diffPage_missing:
  assumes "baselineFile fs p = None"
    and "\<forall>name. screenshotPath p \<noteq> Some (path_join t name)"
  shows "fst (diffPage P B L t fs p) = NoBaseline
         \<or> (\<exists>e. fst (diffPage P B L t fs p) = Thrown e)"
  using assms
  by (auto simp: diffPage_def baselineFile_def Let_def
           split: sum.splits option.splits prod.splits if_splits)

lemma comparePage_errorPages_mono:
  "\<exists>es. errorPages (comparePage P B L t s p) = errorPages s @ es"
  by (simp add: comparePage_def caught_def Let_def split: prod.splits outcome.splits)

lemma foldl_errorPages_mono:
  "set (errorPages s) \<subseteq> set (errorPages (foldl (comparePage P B L t) s ps))"
proof (induction ps arbitrary: s)
  case (Cons p ps)
  obtain es where "errorPages (comparePage P B L t s p) = errorPages s @ es"
    using comparePage_errorPages_mono by blast
  then show ?case
    using Cons [of "comparePage P B L t s p"] by auto
qed simp

lemma baselineFile_kept:
  assumes "baselineFile (disk s) p = None"
    and "\<forall>name. screenshotPath p \<noteq> Some (path_join t name)"
  shows "baselineFile (disk (comparePage P B L t s q)) p = None"
proof (cases "screenshotPath p")
  case None
  then show ?thesis by (simp add: baselineFile_def)
next
  case (Some b)
  obtain r fs' where d: "diffPage P B L t (disk s) q = (r, fs')"
    by (cases "diffPage P B L t (disk s) q")
  have "fs' b = disk s b"
    using diffPage_disk [OF d, of b] assms(2) Some by auto
  then show ?thesis
    using assms(1) Some d by (simp add: baselineFile_def comparePage_disk)
qed

lemma foldl_missing_listed:
  assumes "p \<in> set ps" and "baselineFile (disk s) p = None"
    and "\<forall>name. screenshotPath p \<noteq> Some (path_join t name)"
  shows "\<exists>e. (url p, e) \<in> set (errorPages (foldl (comparePage P B L t) s ps))"
  using assms
proof (induction ps arbitrary: s)
  case (Cons q ps)
  show ?case
  proof (cases "q = p")
    case True
    obtain e where "errorPages (comparePage P B L t s p) = errorPages s @ [(url p, e)]"
      using comparePage_error_step [OF diffPage_missing [OF Cons.prems(2,3)]] by blast
    then have "(url p, e) \<in> set (errorPages (comparePage P B L t s p))"
      by simp
    then show ?thesis
      using foldl_errorPages_mono [of "comparePage P B L t s p" P B L t ps] True by auto
  next
    case False
    then have "p \<in> set ps"
      using Cons.prems(1) by simp
    then show ?thesis
      using Cons.IH [of "comparePage P B L t s q"]
        baselineFile_kept [OF Cons.prems(2,3)] Cons.prems(3)
      by simp
  qed
qed simp

lemma errorCount_length:
  "errorCount s = length (errorPages s) \<Longrightarrow>
   errorCount (comparePage P B L t s p) = length (errorPages (comparePage P B L t s p))"
  by (simp add: comparePage_def caught_def Let_def split: prod.splits outcome.splits)

lemma foldl_errorCount_length:
  "errorCount s = length (errorPages s) \<Longrightarrow>
   errorCount (foldl (comparePage P B L t) s ps)
     = length (errorPages (foldl (comparePage P B L t) s ps))"
  by (induction ps arbitrary: s) (simp_all add: errorCount_length)

lemma sublist_appendL: "sublist xs ys \<Longrightarrow> sublist xs (ps @ ys)"
  by (auto simp: sublist_def) (metis append.assoc)

lemma numbered_line:
  assumes "i < length xs"
  shows "sublist (''  ['' @ show_nat (i + 1) @ ''] '' @ line (xs ! i) @ nl) (numbered line xs)"
proof -
  let ?f = "\<lambda>(i, x). ''  ['' @ show_nat (i + 1) @ ''] '' @ line x @ nl"
  have "zip [0..<length xs] xs ! i = (i, xs ! i)"
    using assms by simp
  then have "?f (i, xs ! i) \<in> set (map ?f (zip [0..<length xs] xs))"
    using assms
    by (metis (no_types, lifting) length_map length_upt length_zip min.idem
        minus_nat.diff_0 nth_map nth_mem)
  then obtain a b where "map ?f (zip [0..<length xs] xs) = a @ ?f (i, xs ! i) # b"
    by (meson split_list)
  then have "numbered line xs = concat a @ ?f (i, xs ! i) @ concat b"
    by (simp add: numbered_def)
  then show ?thesis
    by (auto simp: sublist_def)
qed

lemma listing_sub:
  "xs \<noteq> [] \<Longrightarrow> sublist x (numbered line xs) \<Longrightarrow> sublist x (listing heading line xs)"
  by (simp add: listing_def) (intro sublist_appendL)

lemma report_itemises_errors:
  assumes "(u, e) \<in> set (errorPages s)"
  shows "\<exists>i. sublist (''  ['' @ show_nat (i + 1) @ ''] '' @ u @ '' (Error: '' @ e @ '')'' @ nl)
                     (compareReport website date timestamp n s)"
proof -
  obtain i where i: "i < length (errorPages s)" "errorPages s ! i = (u, e)"
    using assms by (auto simp: in_set_conv_nth)
  have ne: "errorPages s \<noteq> []"
    using i(1) by auto
  have a: "sublist (''  ['' @ show_nat (i + 1) @ ''] '' @ errorLine (u, e) @ nl)
              (numbered errorLine (errorPages s))"
    using numbered_line [OF i(1), of errorLine] i(2) by simp
  have "sublist (''  ['' @ show_nat (i + 1) @ ''] '' @ errorLine (u, e) @ nl)
              (compareReport website date timestamp n s)"
    unfolding compareReport_def using listing_sub [OF ne a] by (intro sublist_appendL)
  then show ?thesis
    by (auto simp: errorLine_def)
qed

lemma report_shows_errorCount:
  "sublist (''Pages with errors: '' @ show_nat (errorCount s) @ nl)
           (compareReport website date timestamp n s)"
proof -
  have k: "sublist (a @ b @ c) (a @ b @ c @ r)" for a b c r :: string
    by (metis append.assoc sublist_append_rightI)
  show ?thesis
    unfolding compareReport_def
    apply (rule sublist_appendL)
    apply (rule sublist_appendL)
    apply (rule sublist_appendL)
    apply (rule sublist_appendL)
    apply (rule sublist_appendL)
    apply (rule sublist_appendL)
    apply (rule sublist_appendL)
    apply (rule k)
    done
qed

text \<open>
  C4, as amended. In the comparison pass of the second script a success page of the
  manifest whose baseline screenshot does not exist (and is not a file of the folder the
  pass writes to) is classified as errored: its turn of the loop adds one to the error
  counter and one entry for its URL to the error list, and leaves the counters of matched
  and changed pages alone. After the loop the error counter is the length of the error
  list, the report states the counter, and the report holds a numbered line with the URL
  of the page and the message of its error. The script \<open>ui-tester.js\<close> has no error
  counter and no error list: there the page changes neither counter nor the list of
  changed pages, and one line goes to the console.
\<close>

theorem missing_baseline_is_counted_and_listed:
  assumes "p \<in> set (successPages baselinePages)"
    and "baselineFile fs p = None"
    and "\<forall>name. screenshotPath p \<noteq> Some (path_join tempFolder name)"
    and "disk s = fs" and "disk_js sj = fs"
  shows "errorCount (comparePage P B L tempFolder s p) = errorCount s + 1
     \<and> matchCount (comparePage P B L tempFolder s p) = matchCount s
     \<and> changeCount (comparePage P B L tempFolder s p) = changeCount s
     \<and> (\<exists>e. errorPages (comparePage P B L tempFolder s p) = errorPages s @ [(url p, e)])
     \<and> errorCount (compareLoop P B L tempFolder fs baselinePages)
         = length (errorPages (compareLoop P B L tempFolder fs baselinePages))
     \<and> sublist (''Pages with errors: ''
                  @ show_nat (errorCount (compareLoop P B L tempFolder fs baselinePages)) @ nl)
          (compareReport website date timestamp (length (successPages baselinePages))
             (compareLoop P B L tempFolder fs baselinePages))
     \<and> (\<exists>e i. (url p, e) \<in> set (errorPages (compareLoop P B L tempFolder fs baselinePages))
           \<and> sublist (''  ['' @ show_nat (i + 1) @ ''] '' @ url p @ '' (Error: '' @ e @ '')'' @ nl)
               (compareReport website date timestamp (length (successPages baselinePages))
                  (compareLoop P B L tempFolder fs baselinePages)))
     \<and> matchCount_js (comparePage_js P B L tempFolder sj p) = matchCount_js sj
     \<and> changeCount_js (comparePage_js P B L tempFolder sj p) = changeCount_js sj
     \<and> changedPages_js (comparePage_js P B L tempFolder sj p) = changedPages_js sj
     \<and> (\<exists>m. console_js (comparePage_js P B L tempFolder sj p) = console_js sj @ [m])"
proof -
  let ?final = "compareLoop P B L tempFolder fs baselinePages"
  have m: "fst (diffPage P B L tempFolder fs p) = NoBaseline
           \<or> (\<exists>e. fst (diffPage P B L tempFolder fs p) = Thrown e)"
    using assms(2,3) by (rule diffPage_missing)
  have a: "errorCount (comparePage P B L tempFolder s p) = errorCount s + 1
     \<and> matchCount (comparePage P B L tempFolder s p) = matchCount s
     \<and> changeCount (comparePage P B L tempFolder s p) = changeCount s
     \<and> (\<exists>e. errorPages (comparePage P B L tempFolder s p) = errorPages s @ [(url p, e)])"
    using comparePage_error_step [of P B L tempFolder s p] m assms(4) by simp
  have b: "errorCount ?final = length (errorPages ?final)"
    unfolding compareLoop_def
    by (rule foldl_errorCount_length) (simp add: compare_init_def)
  obtain e where e: "(url p, e) \<in> set (errorPages ?final)"
    using foldl_missing_listed [of p "successPages baselinePages" "compare_init fs" tempFolder P B L]
      assms(1,2,3)
    by (auto simp: compareLoop_def compare_init_def)
  obtain i where i:
    "sublist (''  ['' @ show_nat (i + 1) @ ''] '' @ url p @ '' (Error: '' @ e @ '')'' @ nl)
       (compareReport website date timestamp (length (successPages baselinePages)) ?final)"
    using report_itemises_errors [OF e] by blast
  have c: "matchCount_js (comparePage_js P B L tempFolder sj p) = matchCount_js sj
     \<and> changeCount_js (comparePage_js P B L tempFolder sj p) = changeCount_js sj
     \<and> changedPages_js (comparePage_js P B L tempFolder sj p) = changedPages_js sj
     \<and> (\<exists>m. console_js (comparePage_js P B L tempFolder sj p) = console_js sj @ [m])"
    using comparePage_js_error_step [of P B L tempFolder sj p] m assms(5) by simp
  show ?thesis
    using a b c e i report_shows_errorCount [of ?final website date timestamp]
    by blast
qed

theorem missing_baseline_is_counted_and_listed_witness:
  "home_record \<in> set (successPages [home_record])
   \<and> baselineFile Map.empty home_record = None
   \<and> errorCount (comparePage plain_URL (home_site dot) example_lib ''tmp''
                    (compare_init Map.empty) home_record) = 1
   \<and> matchCount (comparePage plain_URL (home_site dot) example_lib ''tmp''
                    (compare_init Map.empty) home_record) = 0
   \<and> changeCount (comparePage plain_URL (home_site dot) example_lib ''tmp''
                    (compare_init Map.empty) home_record) = 0
   \<and> errorCount (compareLoop plain_URL (home_site dot) example_lib ''tmp'' Map.empty
                    [home_record])
       = length (errorPages (compareLoop plain_URL (home_site dot) example_lib ''tmp''
                    Map.empty [home_record]))"
proof -
  let ?sj = "\<lparr>matchCount_js = 0, changeCount_js = 0, changedPages_js = [], console_js = [],
              disk_js = Map.empty\<rparr>"
  have h1: "home_record \<in> set (successPages [home_record])"
    by (simp add: successPages_def home_record_def success_page_def)
  have h2: "baselineFile Map.empty home_record = None"
    by (simp add: baselineFile_def home_record_def success_page_def)
  have h3: "\<forall>name. screenshotPath home_record \<noteq> Some (path_join ''tmp'' name)"
    by (simp add: home_record_def success_page_def path_join_def)
  have h4: "disk (compare_init Map.empty) = Map.empty"
    by (simp add: compare_init_def)
  have h5: "disk_js ?sj = Map.empty"
    by simp
  show ?thesis
    using missing_baseline_is_counted_and_listed
      [where p = home_record and baselinePages = "[home_record]" and fs = Map.empty
         and tempFolder = "''tmp''" and s = "compare_init Map.empty" and sj = ?sj
         and P = plain_URL and B = "home_site dot" and L = example_lib,
       OF h1 h2 h3 h4 h5]
      h1 h2
    by (simp add: compare_init_def)
qed

text \<open>
  C4, as stated, fails for \<open>ui-tester.js\<close>: with the baseline screenshot of the only page
  missing, no counter changes, and the report has no line about the page.
\<close>

theorem missing_baseline_not_in_report_of_ui_tester:
  "baselineFile Map.empty home_record = None
   \<and> matchCount_js (compareLoop_js plain_URL (home_site dot) example_lib ''tmp'' Map.empty
                       [home_record]) = 0
   \<and> changeCount_js (compareLoop_js plain_URL (home_site dot) example_lib ''tmp'' Map.empty
                       [home_record]) = 0
   \<and> changedPages_js (compareLoop_js plain_URL (home_site dot) example_lib ''tmp'' Map.empty
                       [home_record]) = []
   \<and> console_js (compareLoop_js plain_URL (home_site dot) example_lib ''tmp'' Map.empty
                       [home_record])
       = [''Baseline screenshot not found for https://h.com/'']
   \<and> compareReport_js ''h.com'' ''D'' ''T'' 1
         (compareLoop_js plain_URL (home_site dot) example_lib ''tmp'' Map.empty [home_record])
       = ''=== Compare Report ==='' @ nl @ ''Baseline: h.com (D)'' @ nl @ ''Compared at: T'' @ nl
         @ ''Total pages compared: 1'' @ nl @ ''Pages matched: 0'' @ nl
         @ ''Pages changed: 0'' @ nl"
  by code_simp

section \<open>Every URL is navigated once\<close>

lemma enqueueLink_cases:
  "enqueueLink P domain c V q link = q
   \<or> (\<exists>u. enqueueLink P domain c V q link = q @ [u] \<and> u \<notin> V \<and> u \<notin> set q)"
  by (auto simp: enqueueLink_def split: option.splits)

lemma foldl_enqueueLink:
  "distinct q \<Longrightarrow> set q \<inter> V = {} \<Longrightarrow>
   distinct (foldl (enqueueLink P domain c V) q links)
   \<and> set (foldl (enqueueLink P domain c V) q links) \<inter> V = {}"
proof (induction links arbitrary: q)
  case (Cons l links)
  have "distinct (enqueueLink P domain c V q l) \<and> set (enqueueLink P domain c V q l) \<inter> V = {}"
    using enqueueLink_cases [of P domain c V q l] Cons.prems by auto
  then show ?case using Cons.IH by simp
qed simp

lemma tryVisit_fields:
  assumes "tryVisit P B folderPath domain startUrl c s = (x, s')"
  shows "navigated s' = navigated s @ [c] \<and> visitedUrls s' = visitedUrls s
     \<and> (\<exists>links. urlsToVisit s'
           = foldl (enqueueLink P domain c (visitedUrls s)) (urlsToVisit s) links)"
proof -
  have n: "\<exists>links. urlsToVisit s
             = foldl (enqueueLink P domain c (visitedUrls s)) (urlsToVisit s) links"
    by (rule exI [of _ "[]"]) simp
  show ?thesis
    using assms n
    by (auto simp: tryVisit_def Let_def split: sum.splits option.splits)
qed

lemma tryVisit_inv:
  assumes "tryVisit P B folderPath domain startUrl c s = (x, s')"
    and "distinct (navigated s)" and "c \<notin> set (navigated s)"
    and "insert c (set (navigated s)) = visitedUrls s"
    and "distinct (urlsToVisit s)" and "set (urlsToVisit s) \<inter> visitedUrls s = {}"
  shows "crawl_inv s'"
proof -
  obtain links where f: "navigated s' = navigated s @ [c]" "visitedUrls s' = visitedUrls s"
    "urlsToVisit s' = foldl (enqueueLink P domain c (visitedUrls s)) (urlsToVisit s) links"
    using tryVisit_fields [OF assms(1)] by blast
  show ?thesis
    using foldl_enqueueLink [OF assms(5,6), of P domain c links] assms(2,3,4)
    unfolding crawl_inv_def f by auto
qed

lemma catchVisit_inv: "catchVisit P startUrl c e s = Inr s' \<Longrightarrow> crawl_inv s \<Longrightarrow> crawl_inv s'"
  by (auto simp: catchVisit_def crawl_inv_def split: option.splits)

lemma crawl_step_inv:
  assumes "crawl_step P B folderPath domain startUrl s = Inr s'" and "crawl_inv s"
  shows "crawl_inv s'"
proof (cases "urlsToVisit s")
  case Nil
  then show ?thesis using assms by (simp add: crawl_step_def)
next
  case (Cons c rest)
  have nv: "c \<notin> visitedUrls s" and dr: "distinct rest" and cr: "c \<notin> set rest"
    and rv: "set rest \<inter> visitedUrls s = {}"
    using assms(2) Cons by (auto simp: crawl_inv_def)
  let ?s1 = "s\<lparr>urlsToVisit := rest, visitedUrls := insert c (visitedUrls s)\<rparr>"
  obtain x s2 where t: "tryVisit P B folderPath domain startUrl c ?s1 = (x, s2)"
    by (cases "tryVisit P B folderPath domain startUrl c ?s1")
  have i2: "crawl_inv s2"
    using assms(2) nv dr cr rv
    by (intro tryVisit_inv [OF t]) (auto simp: crawl_inv_def)
  show ?thesis
  proof (cases x)
    case None
    then show ?thesis using assms(1) Cons nv t i2 by (simp add: crawl_step_def Let_def)
  next
    case (Some e)
    then have "catchVisit P startUrl c e s2 = Inr s'"
      using assms(1) Cons nv t by (simp add: crawl_step_def Let_def)
    then show ?thesis using i2 by (rule catchVisit_inv)
  qed
qed

lemma crawl_iter_inv:
  "crawl_iter n P B folderPath domain startUrl s = Inr s' \<Longrightarrow> crawl_inv s \<Longrightarrow> crawl_inv s'"
proof (induction n arbitrary: s)
  case (Suc n)
  show ?case
  proof (cases "urlsToVisit s = []")
    case True
    then show ?thesis using Suc.prems by simp
  next
    case False
    then obtain s1 where s1: "crawl_step P B folderPath domain startUrl s = Inr s1"
      and r: "crawl_iter n P B folderPath domain startUrl s1 = Inr s'"
      using Suc.prems(1) by (auto split: sum.splits)
    show ?thesis using Suc.IH [OF r crawl_step_inv [OF s1 Suc.prems(2)]] .
  qed
qed simp


lemma report_visit_fields:
  "goto_log (report_visit P B h sf c d r) = goto_log r @ [c]
   \<and> visited (report_visit P B h sf c d r) = visited r
   \<and> map url (pageDetails (report_visit P B h sf c d r)) = map url (pageDetails r) @ [url d]
   \<and> (\<exists>new. toVisit (report_visit P B h sf c d r) = toVisit r @ new
              \<and> set new \<inter> visited r = {})"
proof -
  have e: "\<exists>new. toVisit r = toVisit r @ new \<and> set new \<inter> visited r = {}"
    by (rule exI [of _ "[]"]) simp
  have f: "set (filter (\<lambda>link. link \<notin> visited r) ls) \<inter> visited r = {}" for ls
    by auto
  show ?thesis
    using e f
    by (auto simp: report_visit_def Let_def split: sum.splits option.splits prod.splits)
qed

lemma report_step_unvisited:
  assumes "report_step P B h sf r = Inr r'" and "toVisit r = c # rest" and "c \<notin> visited r"
  shows "\<exists>d s2. url d = c \<and> visited s2 = insert c (visited r) \<and> toVisit s2 = rest
           \<and> goto_log s2 = goto_log r \<and> pageDetails s2 = pageDetails r
           \<and> goto_log r' = goto_log (report_visit P B h sf c d s2)
           \<and> visited r' = visited (report_visit P B h sf c d s2)
           \<and> pageDetails r' = pageDetails (report_visit P B h sf c d s2)
           \<and> toVisit r' = toVisit (report_visit P B h sf c d s2)"
proof -
  obtain u where u: "P c None = Some u"
    using assms by (auto simp: report_step_def Let_def split: option.splits)
  let ?s1 = "r\<lparr>toVisit := rest, visited := insert c (visited r)\<rparr>"
  let ?s2 = "if categorizePage P c = MainPage
             then ?s1\<lparr>mainPages := insert c (mainPages ?s1)\<rparr>
             else ?s1\<lparr>subPages := insert c (subPages ?s1)\<rparr>"
  let ?d = "\<lparr>url = c, pageType = categorizePage P c, pathDepth = length (pathSegments u),
             path = pathname u, status = Pending, title = None, screenshotPath = None,
             errorMessage = None, canonical = None\<rparr>"
  have r': "r' = (report_visit P B h sf c ?d ?s2)
                   \<lparr>processedCount := processedCount (report_visit P B h sf c ?d ?s2) + 1\<rparr>"
    using assms u by (simp add: report_step_def Let_def)
  have "url ?d = c \<and> visited ?s2 = insert c (visited r) \<and> toVisit ?s2 = rest
           \<and> goto_log ?s2 = goto_log r \<and> pageDetails ?s2 = pageDetails r"
    by simp
  then show ?thesis
    using r' by (intro exI [of _ ?d] exI [of _ ?s2]) simp
qed

lemma report_step_inv:
  assumes "report_step P B h sf r = Inr r'" and "report_inv r"
  shows "report_inv r'"
proof (cases "toVisit r")
  case Nil
  then show ?thesis using assms by (simp add: report_step_def)
next
  case (Cons c rest)
  show ?thesis
  proof (cases "c \<in> visited r")
    case True
    then show ?thesis
      using assms Cons by (auto simp: report_step_def report_inv_def)
  next
    case False
    obtain d s2 where k: "url d = c" "visited s2 = insert c (visited r)"
      "goto_log s2 = goto_log r" "pageDetails s2 = pageDetails r"
      "goto_log r' = goto_log (report_visit P B h sf c d s2)"
      "visited r' = visited (report_visit P B h sf c d s2)"
      "pageDetails r' = pageDetails (report_visit P B h sf c d s2)"
      using report_step_unvisited [OF assms(1) Cons False] by blast
    show ?thesis
      using assms(2) False report_visit_fields [of P B h sf c d s2]
      unfolding report_inv_def k by auto
  qed
qed

lemma report_step_queue:
  assumes "report_step P B h sf r = Inr r'"
  shows "\<exists>new. toVisit r' = tl (toVisit r) @ new \<and> set new \<inter> visited r' = {}"
proof (cases "toVisit r")
  case Nil
  then show ?thesis using assms by (auto simp: report_step_def)
next
  case (Cons c rest)
  show ?thesis
  proof (cases "c \<in> visited r")
    case True
    then show ?thesis
      using assms Cons by (auto simp: report_step_def)
  next
    case False
    obtain d s2 where k: "toVisit s2 = rest"
      "visited r' = visited (report_visit P B h sf c d s2)"
      "toVisit r' = toVisit (report_visit P B h sf c d s2)"
      using report_step_unvisited [OF assms(1) Cons False] by blast
    show ?thesis
      using report_visit_fields [of P B h sf c d s2] Cons
      unfolding k by auto
  qed
qed

lemma report_iter_inv:
  "report_iter n P B h sf r = Inr r' \<Longrightarrow> report_inv r \<Longrightarrow> report_inv r'"
proof (induction n arbitrary: r)
  case (Suc n)
  show ?case
  proof (cases "toVisit r = []")
    case True
    then show ?thesis using Suc.prems by simp
  next
    case False
    then obtain r1 where r1: "report_step P B h sf r = Inr r1"
      and k: "report_iter n P B h sf r1 = Inr r'"
      using Suc.prems(1) by (auto split: sum.splits)
    show ?thesis using Suc.IH [OF k report_step_inv [OF r1 Suc.prems(2)]] .
  qed
qed simp


text \<open>
  C1, as amended. In both crawls a URL is navigated at most once in a run: at every turn
  of the loop the navigated URLs are distinct and are the visited set. The baseline crawl
  \<open>crawlAndScreenshot\<close> never adds a URL to the pending queue that is visited or pending
  already, so its queue holds no URL twice and no visited URL. The page reporter
  \<open>generatePageReport\<close> adds a link to the pending queue only when it is not visited yet,
  but it adds it once for each time a page carries it, also when it is pending already;
  a URL that is visited by the time it leaves the queue is skipped, and each navigation
  makes one page record.
\<close>

theorem each_url_is_navigated_once:
  assumes "crawl_iter n P B folderPath domain startUrl (crawl_init fs startUrl) = Inr s"
    and "report_iter m P' B' hostname0 screenshotFolder (report_init startUrl') = Inr r"
  shows "distinct (navigated s) \<and> set (navigated s) = visitedUrls s
     \<and> distinct (urlsToVisit s) \<and> set (urlsToVisit s) \<inter> visitedUrls s = {}
     \<and> (\<forall>c V q link.
           enqueueLink P domain c V q link = q
           \<or> (\<exists>u. enqueueLink P domain c V q link = q @ [u] \<and> u \<notin> V \<and> u \<notin> set q))
     \<and> distinct (goto_log r) \<and> set (goto_log r) = visited r
     \<and> map url (pageDetails r) = goto_log r
     \<and> (\<forall>x x'. report_step P' B' hostname0 screenshotFolder x = Inr x' \<longrightarrow>
           (\<exists>new. toVisit x' = tl (toVisit x) @ new \<and> set new \<inter> visited x' = {}))"
proof -
  have "crawl_inv (crawl_init fs startUrl)"
    by (simp add: crawl_inv_def crawl_init_def)
  then have a: "crawl_inv s"
    using crawl_iter_inv [OF assms(1)] by simp
  have "report_inv (report_init startUrl')"
    by (simp add: report_inv_def report_init_def)
  then have b: "report_inv r"
    using report_iter_inv [OF assms(2)] by simp
  show ?thesis
    using a b enqueueLink_cases [of P domain] report_step_queue [of P' B' hostname0 screenshotFolder]
    unfolding crawl_inv_def report_inv_def by blast
qed

theorem each_url_is_navigated_once_witness:
  "(case crawl_iter 4 plain_URL query_site ''baseline/h.com-T'' ''h.com'' ''https://h.com/''
           (crawl_init Map.empty ''https://h.com/'') of
      Inr s \<Rightarrow> distinct (navigated s) \<and> urlsToVisit s = []
              \<and> navigated s
                  = [''https://h.com/'', ''https://h.com/p?id=1'', ''https://h.com/p?id=2'']
    | Inl e \<Rightarrow> False)
   \<and> (case report_iter 4 plain_URL twice_site ''h.com'' None (report_init ''https://h.com/'') of
        Inr r \<Rightarrow> distinct (goto_log r) \<and> toVisit r = []
                \<and> map url (pageDetails r) = [''https://h.com/'', ''https://h.com/a'']
      | Inl e \<Rightarrow> False)"
proof -
  have c: "case crawl_iter 4 plain_URL query_site ''baseline/h.com-T'' ''h.com'' ''https://h.com/''
                  (crawl_init Map.empty ''https://h.com/'') of
             Inr s \<Rightarrow> urlsToVisit s = []
                     \<and> navigated s
                         = [''https://h.com/'', ''https://h.com/p?id=1'', ''https://h.com/p?id=2'']
           | Inl e \<Rightarrow> False"
    by code_simp
  have d: "case report_iter 4 plain_URL twice_site ''h.com'' None (report_init ''https://h.com/'') of
             Inr r \<Rightarrow> toVisit r = []
                     \<and> map url (pageDetails r) = [''https://h.com/'', ''https://h.com/a'']
           | Inl e \<Rightarrow> False"
    by code_simp
  obtain s where s: "crawl_iter 4 plain_URL query_site ''baseline/h.com-T'' ''h.com''
                       ''https://h.com/'' (crawl_init Map.empty ''https://h.com/'') = Inr s"
    using c by (auto split: sum.splits)
  obtain r where r: "report_iter 4 plain_URL twice_site ''h.com'' None
                       (report_init ''https://h.com/'') = Inr r"
    using d by (auto split: sum.splits)
  have "distinct (navigated s) \<and> distinct (goto_log r)"
    using each_url_is_navigated_once [OF s r] by blast
  then show ?thesis
    using c d unfolding s r by simp
qed

text \<open>
  C1, as stated, fails for the page reporter: a home page that carries the same link twice
  puts the link on the pending queue twice.
\<close>

theorem reporter_queues_a_link_twice:
  "map_sum id toVisit
     (report_iter 1 plain_URL twice_site ''h.com'' None (report_init ''https://h.com/''))
   = Inr [''https://h.com/a'', ''https://h.com/a'']"
  by code_simp

end
